theory Spec2Isabelle
  imports Complex_Main "HOL-Library.Multiset" "HOL-Library.Product_Lexorder" "HOL-Library.Sublist"
begin

section \<open>Geometry utilities and element records (browser/models, browser/utils.ts)\<close>

text \<open>
  JavaScript numbers are modelled as exact rationals: the claims below concern the
  structure of the algorithms (comparisons, thresholds, order), not rounding.
  The literals \<open>0.7\<close>, \<open>0.5\<close> and \<open>1.5\<close> are the rationals \<open>7/10\<close>, \<open>1/2\<close>, \<open>3/2\<close>.
  A few names of the source are taken: the field \<open>top\<close> is \<open>top'\<close>, \<open>text\<close> is
  \<open>elementText\<close>, the viewport of a browser state is \<open>viewport'\<close>, the width and
  height of a viewport and the URL of a tab carry a prefix, and the private method
  \<open>_updateState\<close> is \<open>updateState_inner\<close>.
\<close>

record Rect =
  left :: rat
  top' :: rat
  right :: rat
  bottom :: rat
  width :: rat
  height :: rat

record Coordinates =
  x :: rat
  y :: rat

record InteractiveElement =
  index :: int
  tagName :: string
  elementText :: string
  attributes :: "(string \<times> string) list"
  viewport :: Coordinates
  page :: Coordinates
  center :: Coordinates
  weight :: rat
  browserAgentId :: string
  inputType :: "string option"
  rect :: Rect
  zIndex :: int

text \<open>
  Arrays of elements hold object references. A reference is an address; the store maps
  every address to the element object found there. An array is a list of references.
\<close>

type_synonym ref = nat
type_synonym store = "ref \<Rightarrow> InteractiveElement"

definition calculateIou :: "Rect \<Rightarrow> Rect \<Rightarrow> rat" where
  "calculateIou rect1 rect2 =
     (let intersectLeft = max (left rect1) (left rect2);
          intersectTop = max (top' rect1) (top' rect2);
          intersectRight = min (right rect1) (right rect2);
          intersectBottom = min (bottom rect1) (bottom rect2)
      in if intersectRight < intersectLeft \<or> intersectBottom < intersectTop then 0
         else
           (let area1 = (right rect1 - left rect1) * (bottom rect1 - top' rect1);
                area2 = (right rect2 - left rect2) * (bottom rect2 - top' rect2);
                intersectionArea = (intersectRight - intersectLeft) * (intersectBottom - intersectTop);
                unionArea = area1 + area2 - intersectionArea
            in if unionArea > 0 then intersectionArea / unionArea else 0))"

definition isFullyContained :: "Rect \<Rightarrow> Rect \<Rightarrow> bool" where
  "isFullyContained rect1 rect2 \<longleftrightarrow>
     left rect1 \<ge> left rect2 \<and> right rect1 \<le> right rect2 \<and>
     top' rect1 \<ge> top' rect2 \<and> bottom rect1 \<le> bottom rect2"

subsection \<open>Array.prototype.sort with a comparator\<close>

text \<open>
  \<open>xs.sort(cmp)\<close> is stable, and for a consistent comparator its result is the one that
  stable insertion produces: an element goes in front of the first element it does not
  compare greater than.
\<close>

fun insert_by :: "('a \<Rightarrow> 'a \<Rightarrow> rat) \<Rightarrow> 'a \<Rightarrow> 'a list \<Rightarrow> 'a list" where
  "insert_by cmp a [] = [a]"
| "insert_by cmp a (b # bs) = (if cmp a b \<le> 0 then a # b # bs else b # insert_by cmp a bs)"

definition sort_by :: "('a \<Rightarrow> 'a \<Rightarrow> rat) \<Rightarrow> 'a list \<Rightarrow> 'a list" where
  "sort_by cmp xs = foldr (insert_by cmp) xs []"

subsection \<open>filterOverlappingElements\<close>

definition rectArea :: "InteractiveElement \<Rightarrow> rat" where
  "rectArea e = width (rect e) * height (rect e)"

text \<open>The comparator of the in-place sort: descending area, then descending weight.\<close>

definition compareAreaWeight :: "store \<Rightarrow> ref \<Rightarrow> ref \<Rightarrow> rat" where
  "compareAreaWeight h a b =
     (let areaA = rectArea (h a); areaB = rectArea (h b)
      in if areaB \<noteq> areaA then areaB - areaA else weight (h b) - weight (h a))"

text \<open>
  The inner loop over \<open>filteredElements\<close> for one candidate \<open>current\<close>. It returns
  \<open>shouldAdd\<close> and the accepted list as the loop leaves it: unchanged, or with the one
  element removed that \<open>splice(i, 1)\<close> took out before the \<open>break\<close>.
\<close>

fun scanFiltered :: "store \<Rightarrow> rat \<Rightarrow> ref \<Rightarrow> ref list \<Rightarrow> bool \<times> ref list" where
  "scanFiltered h iouThreshold current [] = (True, [])"
| "scanFiltered h iouThreshold current (existing # rest) =
     (if calculateIou (rect (h current)) (rect (h existing)) > iouThreshold
      then (False, existing # rest)
      else if isFullyContained (rect (h current)) (rect (h existing)) then
        (if weight (h existing) \<ge> weight (h current) \<and> zIndex (h existing) = zIndex (h current)
         then (False, existing # rest)
         else if rectArea (h current) \<ge> rectArea (h existing) * (1 / 2)
         then (True, rest)
         else (case scanFiltered h iouThreshold current rest of
                 (shouldAdd, rest') \<Rightarrow> (shouldAdd, existing # rest')))
      else (case scanFiltered h iouThreshold current rest of
              (shouldAdd, rest') \<Rightarrow> (shouldAdd, existing # rest')))"

text \<open>One iteration of the outer loop: scan, then push the candidate if it is to be added.\<close>

definition filterStep :: "store \<Rightarrow> rat \<Rightarrow> ref list \<Rightarrow> ref \<Rightarrow> ref list" where
  "filterStep h iouThreshold filteredElements current =
     (case scanFiltered h iouThreshold current filteredElements of
        (shouldAdd, filtered') \<Rightarrow> if shouldAdd then filtered' @ [current] else filtered')"

text \<open>
  The result is a pair: the caller's array as the call leaves it (sorted in place), and
  the returned array.
\<close>

definition filterOverlappingElements :: "store \<Rightarrow> ref list \<Rightarrow> rat \<Rightarrow> ref list \<times> ref list" where
  "filterOverlappingElements h elements iouThreshold =
     (if elements = [] then ([], [])
      else (let sorted = sort_by (compareAreaWeight h) elements
            in (sorted, foldl (filterStep h iouThreshold) [] sorted)))"

subsection \<open>sortElementsByPosition\<close>

definition ROW_THRESHOLD :: rat where
  "ROW_THRESHOLD = 20"

definition compareTop :: "store \<Rightarrow> ref \<Rightarrow> ref \<Rightarrow> rat" where
  "compareTop h a b = top' (rect (h a)) - top' (rect (h b))"

definition compareLeft :: "store \<Rightarrow> ref \<Rightarrow> ref \<Rightarrow> rat" where
  "compareLeft h a b = left (rect (h a)) - left (rect (h b))"

text \<open>The grouping loop, with its two variables \<open>rows\<close> and \<open>currentRow\<close>.\<close>

fun groupRows :: "store \<Rightarrow> ref list list \<Rightarrow> ref list \<Rightarrow> ref list \<Rightarrow> ref list list \<times> ref list" where
  "groupRows h rows currentRow [] = (rows, currentRow)"
| "groupRows h rows currentRow (element # es) =
     (if currentRow = [] then groupRows h rows [element] es
      else if \<bar>top' (rect (h element)) - top' (rect (h (last currentRow)))\<bar> \<le> ROW_THRESHOLD
      then groupRows h rows (currentRow @ [element]) es
      else groupRows h (rows @ [currentRow]) [element] es)"

definition rowsOf :: "store \<Rightarrow> ref list \<Rightarrow> ref list list" where
  "rowsOf h sortedByY =
     (case groupRows h [] [] sortedByY of
        (rows, currentRow) \<Rightarrow> if currentRow \<noteq> [] then rows @ [currentRow] else rows)"

text \<open>The final loop: \<open>sortedElements[i].index = i\<close> for \<open>i\<close> from the given position on.\<close>

fun assignIndex :: "store \<Rightarrow> nat \<Rightarrow> ref list \<Rightarrow> store" where
  "assignIndex h i [] = h"
| "assignIndex h i (r # rs) = assignIndex (h(r := (h r)\<lparr>index := int i\<rparr>)) (Suc i) rs"

definition sortElementsByPosition :: "store \<Rightarrow> ref list \<Rightarrow> store \<times> ref list" where
  "sortElementsByPosition h elements =
     (if elements = [] then (h, [])
      else (let sortedByY = sort_by (compareTop h) elements;
                rows = map (sort_by (compareLeft h)) (rowsOf h sortedByY);
                sortedElements = concat rows
            in (assignIndex h 0 sortedElements, sortedElements)))"

subsection \<open>filterElements: the resolver\<close>

text \<open>Returns the store after the call, the caller's array after the call, and the result.\<close>

definition filterElements :: "store \<Rightarrow> ref list \<Rightarrow> rat \<Rightarrow> store \<times> ref list \<times> ref list" where
  "filterElements h elements iouThreshold =
     (case filterOverlappingElements h elements iouThreshold of
        (elements', filtered) \<Rightarrow>
          (case sortElementsByPosition h filtered of
             (h', sortedElements) \<Rightarrow> (h', elements', sortedElements)))"

section \<open>State synchronizer (browser/browser.ts)\<close>

datatype error = Error string | TypeError string

record TabInfo =
  pageId :: nat
  tabUrl :: string
  title :: string

record Viewport =
  viewportWidth :: rat
  viewportHeight :: rat
  scrollX :: rat
  scrollY :: rat
  devicePixelRatio :: rat
  scrollDistanceAboveViewport :: rat
  scrollDistanceBelowViewport :: rat

record BrowserState =
  url :: string
  tabs :: "TabInfo list"
  viewport' :: Viewport
  interactiveElements :: "int \<rightharpoonup> InteractiveElement"
  screenshotWithHighlights :: "string option"
  screenshot :: "string option"

text \<open>
  Of the browser object only the field \<open>state\<close> (\<open>BrowserState | undefined\<close>) is
  modelled; the Playwright handles are the environment.
\<close>

record Browser =
  state :: "BrowserState option"

definition newViewport :: Viewport where
  "newViewport = \<lparr>viewportWidth = 1024, viewportHeight = 768, scrollX = 0, scrollY = 0,
     devicePixelRatio = 1, scrollDistanceAboveViewport = 0, scrollDistanceBelowViewport = 0\<rparr>"

definition initState :: "string \<Rightarrow> Browser \<Rightarrow> Browser" where
  "initState u b = b\<lparr>state := Some \<lparr>url = u, tabs = [], viewport' = newViewport,
     interactiveElements = Map.empty, screenshotWithHighlights = None, screenshot = None\<rparr>\<rparr>"

text \<open>The constructor calls \<open>initState()\<close> with the default URL \<open>''\<close>.\<close>

definition newBrowser :: Browser where
  "newBrowser = initState [] \<lparr>state = None\<rparr>"

text \<open>\<open>close()\<close> ends with \<open>this.state = undefined\<close>.\<close>

definition close :: "Browser \<Rightarrow> Browser" where
  "close b = b\<lparr>state := None\<rparr>"

text \<open>
  \<open>_updateState\<close>. The body of its \<open>try\<close> block talks to the page; its outcome on one
  invocation is the argument \<open>cycle\<close>: the assembled state, or the error thrown.
\<close>

definition updateState_inner :: "Browser \<Rightarrow> error + BrowserState \<Rightarrow> Browser \<times> (error + BrowserState)" where
  "updateState_inner b cycle =
     (case cycle of
        Inr s \<Rightarrow> (b\<lparr>state := Some s\<rparr>, Inr s)
      | Inl e \<Rightarrow> (case state b of Some s \<Rightarrow> (b, Inr s) | None \<Rightarrow> (b, Inl e)))"

subsection \<open>The retry wrapper\<close>

text \<open>
  Modelled from the spec: \<open>backOff\<close> of the package \<open>exponential-backoff\<close> is a
  dependency whose code is not part of the sources. It calls the request up to
  \<open>numOfAttempts\<close> times, one call after the other; a failed call is followed by another
  one when \<open>retry\<close> says so and attempts remain, else its error is thrown. Before the
  first call there is no delay unless \<open>delayFirstAttempt\<close>; the first delay applied is
  \<open>startingDelay\<close> and each further one is \<open>timeMultiple\<close> times the one before.
  The model returns the final state, the result, the delays applied (in ms) and the
  number of calls made.
\<close>

record BackoffOptions =
  numOfAttempts :: nat
  startingDelay :: rat
  timeMultiple :: rat
  delayFirstAttempt :: bool

definition delayBefore :: "BackoffOptions \<Rightarrow> nat \<Rightarrow> rat list" where
  "delayBefore opts attemptNumber =
     (if delayFirstAttempt opts then [startingDelay opts * timeMultiple opts ^ attemptNumber]
      else if attemptNumber = 0 then []
      else [startingDelay opts * timeMultiple opts ^ (attemptNumber - 1)])"

function backOff_loop ::
  "BackoffOptions \<Rightarrow> (nat \<Rightarrow> 's \<Rightarrow> 's \<times> (error + 'a)) \<Rightarrow> (error \<Rightarrow> bool) \<Rightarrow>
   nat \<Rightarrow> rat list \<Rightarrow> 's \<Rightarrow> 's \<times> (error + 'a) \<times> rat list \<times> nat" where
  "backOff_loop opts request retry attemptNumber delays s =
     (if attemptNumber < numOfAttempts opts then
        (let delays' = delays @ delayBefore opts attemptNumber
         in case request attemptNumber s of
              (s', Inr v) \<Rightarrow> (s', Inr v, delays', Suc attemptNumber)
            | (s', Inl e) \<Rightarrow>
                if \<not> retry e \<or> Suc attemptNumber \<ge> numOfAttempts opts
                then (s', Inl e, delays', Suc attemptNumber)
                else backOff_loop opts request retry (Suc attemptNumber) delays' s')
      else (s, Inl (Error ''Something went wrong.''), delays, attemptNumber))"
  by pat_completeness auto
termination
  by (relation "measure (\<lambda>(opts, request, retry, attemptNumber, delays, s).
        numOfAttempts opts - attemptNumber)") auto

declare backOff_loop.simps [simp del]

definition backOff ::
  "(nat \<Rightarrow> 's \<Rightarrow> 's \<times> (error + 'a)) \<Rightarrow> BackoffOptions \<Rightarrow> (error \<Rightarrow> bool) \<Rightarrow>
   's \<Rightarrow> 's \<times> (error + 'a) \<times> rat list \<times> nat" where
  "backOff request opts retry s = backOff_loop opts request retry 0 [] s"

text \<open>
  \<open>updateState\<close>. The environment \<open>cycles k\<close> is the outcome of the capture cycle on the
  \<open>k\<close>-th call of \<open>_updateState\<close> (counted from 0). The result carries, besides the
  browser and the value returned or thrown, the delays waited and the number of calls.
\<close>

definition updateStateOptions :: BackoffOptions where
  "updateStateOptions = \<lparr>numOfAttempts = 3, startingDelay = 500, timeMultiple = 3 / 2,
     delayFirstAttempt = False\<rparr>"

definition updateState ::
  "Browser \<Rightarrow> (nat \<Rightarrow> error + BrowserState) \<Rightarrow> Browser \<times> (error + BrowserState) \<times> rat list \<times> nat" where
  "updateState b cycles =
     (case backOff (\<lambda>k b'. updateState_inner b' (cycles k)) updateStateOptions (\<lambda>e. True) b of
        (b', Inr s, delays, calls) \<Rightarrow> (b'\<lparr>state := Some s\<rparr>, Inr s, delays, calls)
      | (b', Inl e, delays, calls) \<Rightarrow> (b', Inl e, delays, calls))"

section \<open>Conversation context (llm message types, agent/messageManager)\<close>

text \<open>
  A content part carries the optional \<open>cacheControl\<close> flag of \<open>MessageContent\<close>:
  \<open>None\<close> when the key is absent. A system message has string content; the other
  messages have a string or an array of parts, and the optional \<open>isStateMessage\<close>.
\<close>

datatype content_part =
    TextContent string "bool option"
  | ImageContent "string option" "bool option"
  | ToolContent string "bool option"
  | ThinkingBlock string string "bool option"

datatype message_content = Str string | Parts "content_part list"

datatype message =
    SystemMessage string
  | UserMessage message_content bool
  | AssistantMessage message_content bool
  | ToolMessage message_content bool

fun isSystem :: "message \<Rightarrow> bool" where
  "isSystem (SystemMessage c) = True"
| "isSystem m = False"

fun contentOf :: "message \<Rightarrow> message_content" where
  "contentOf (SystemMessage c) = Str c"
| "contentOf (UserMessage c st) = c"
| "contentOf (AssistantMessage c st) = c"
| "contentOf (ToolMessage c st) = c"

fun setContent :: "message \<Rightarrow> content_part list \<Rightarrow> message" where
  "setContent (SystemMessage c) ps = SystemMessage c"
| "setContent (UserMessage c st) ps = UserMessage (Parts ps) st"
| "setContent (AssistantMessage c st) ps = AssistantMessage (Parts ps) st"
| "setContent (ToolMessage c st) ps = ToolMessage (Parts ps) st"

text \<open>The test inside \<open>hasCacheControl\<close>: a text part whose flag is present and \<open>true\<close>.\<close>

fun activeMarker :: "content_part \<Rightarrow> bool" where
  "activeMarker (TextContent t c) = (c = Some True)"
| "activeMarker p = False"

text \<open>
  \<open>hasCacheControl\<close> calls \<open>.some\<close> on the content; on string content that is a
  \<open>TypeError\<close>.
\<close>

definition hasCacheControl :: "message \<Rightarrow> error + bool" where
  "hasCacheControl m =
     (case contentOf m of
        Str c \<Rightarrow> Inl (TypeError ''message.content.some is not a function'')
      | Parts ps \<Rightarrow> Inr (list_ex activeMarker ps))"

fun clearPart :: "content_part \<Rightarrow> content_part" where
  "clearPart (TextContent t (Some c)) = TextContent t (Some False)"
| "clearPart p = p"

text \<open>
  \<open>removeCacheControl\<close> iterates over the content; the characters of string content have
  no \<open>type\<close>, so a string is left as it is.
\<close>

definition removeCacheControl :: "message \<Rightarrow> message" where
  "removeCacheControl m =
     (case contentOf m of
        Str c \<Rightarrow> m
      | Parts ps \<Rightarrow> setContent m (map clearPart ps))"

text \<open>
  The loop of \<open>getMessages\<close> runs from the last message to the first and changes the
  messages in place. \<open>scanMessages\<close> takes the messages latest first, with the flag
  \<open>foundFirstCacheControl\<close>, and returns them in that order as the loop leaves them,
  together with the error thrown, if any: when \<open>hasCacheControl\<close> throws, the messages
  scanned before keep what the loop did to them and the earlier ones are untouched.
\<close>

fun scanMessages :: "bool \<Rightarrow> message list \<Rightarrow> message list \<times> error option" where
  "scanMessages foundFirstCacheControl [] = ([], None)"
| "scanMessages foundFirstCacheControl (msg # earlier) =
     (if isSystem msg then
        (case scanMessages foundFirstCacheControl earlier of
           (ms, thrown) \<Rightarrow> (msg # ms, thrown))
      else
        (let msg' = (if foundFirstCacheControl then removeCacheControl msg else msg)
         in case hasCacheControl msg' of
              Inl e \<Rightarrow> (msg' # earlier, Some e)
            | Inr has \<Rightarrow>
                (case scanMessages (if has then True else foundFirstCacheControl) earlier of
                   (ms, thrown) \<Rightarrow> (msg' # ms, thrown))))"

text \<open>The value of \<open>getMessages\<close>, and the log \<open>_messages\<close> after the call.\<close>

definition getMessages :: "message list \<Rightarrow> error + message list" where
  "getMessages messages =
     (case scanMessages False (rev messages) of
        (ms, Some e) \<Rightarrow> Inl e
      | (ms, None) \<Rightarrow> Inr (rev ms))"

definition messagesAfterGet :: "message list \<Rightarrow> message list" where
  "messagesAfterGet messages = rev (fst (scanMessages False (rev messages)))"

definition removeLastMessage :: "message list \<Rightarrow> message list" where
  "removeLastMessage messages = (if length messages > 1 then butlast messages else messages)"

text \<open>
  \<open>addCurrentStateMessage\<close> pushes one user message of seven parts, none with a
  \<open>cacheControl\<close> key. The text of the first part is formatted from the state, the
  previous result and the follow-up message; the formatted text is the argument
  \<open>stateDescription\<close>.
\<close>

definition stateMessage :: "string \<Rightarrow> BrowserState \<Rightarrow> message" where
  "stateMessage stateDescription st =
     UserMessage (Parts
        [TextContent stateDescription None,
         TextContent ''<current_state_clean_screenshot>'' None,
         ImageContent (screenshot st) None,
         TextContent ''</current_state_clean_screenshot>'' None,
         TextContent ''<current_state>'' None,
         ImageContent (screenshotWithHighlights st) None,
         TextContent ''</current_state>'' None]) False"

definition addCurrentStateMessage :: "message list \<Rightarrow> string \<Rightarrow> BrowserState \<Rightarrow> message list" where
  "addCurrentStateMessage messages stateDescription st = messages @ [stateMessage stateDescription st]"

section \<open>Control loop (agent/agent.ts)\<close>

record ActionResult =
  isDone :: "bool option"
  content :: "string option"
  error :: "string option"
  giveControl :: "bool option"

record AgentOutput =
  agentState :: "message list option"
  result :: ActionResult
  stepCount :: nat

datatype chunk =
    StepChunk ActionResult string
  | TimeoutChunk ActionResult string nat
  | ErrorChunk string
  | FinalOutputChunk AgentOutput

fun chunkType :: "chunk \<Rightarrow> string" where
  "chunkType (StepChunk r s) = ''step''"
| "chunkType (TimeoutChunk r s n) = ''step_timeout''"
| "chunkType (ErrorChunk c) = ''error''"
| "chunkType (FinalOutputChunk out) = ''final_output''"

subsection \<open>One step\<close>

text \<open>
  \<open>Agent.step\<close> on the conversation. The collaborators are arguments: \<open>synced\<close> is the
  outcome of \<open>browser.updateState()\<close>, \<open>describe\<close> formats the state description,
  \<open>generateAction\<close> is the model call with its parsing (it returns the parsed output or
  the error thrown), and \<open>continue\<close> stands for the rest of the step after a successful
  model call (recording the model's turn and executing the action). If \<open>getMessages\<close>
  throws, the appended state message stays and the log is left as the loop of
  \<open>getMessages\<close> had changed it by then.
\<close>

definition step ::
  "message list \<Rightarrow> ActionResult option \<Rightarrow> (error + BrowserState) \<Rightarrow>
   (BrowserState \<Rightarrow> ActionResult \<Rightarrow> string) \<Rightarrow> (message list \<Rightarrow> error + 'o) \<Rightarrow>
   (message list \<Rightarrow> BrowserState \<Rightarrow> 'o \<Rightarrow> message list \<times> (error + 'r)) \<Rightarrow>
   message list \<times> (error + 'r)" where
  "step messages previousResult synced describe generateAction continue =
     (case synced of
        Inl e \<Rightarrow> (messages, Inl e)
      | Inr st \<Rightarrow>
          (let added = (case previousResult of
                          Some prev \<Rightarrow> addCurrentStateMessage messages (describe st prev) st
                        | None \<Rightarrow> messages)
           in case getMessages added of
                Inl e \<Rightarrow> (messagesAfterGet added, Inl e)
              | Inr inputMessages \<Rightarrow>
                  (case generateAction inputMessages of
                     Inl e \<Rightarrow> (removeLastMessage inputMessages, Inl e)
                   | Inr modelOutput \<Rightarrow>
                       continue (case previousResult of
                                   Some prev \<Rightarrow> removeLastMessage inputMessages
                                 | None \<Rightarrow> inputMessages) st modelOutput)))"

subsection \<open>The two run modes\<close>

text \<open>
  The loops of \<open>run\<close> and \<open>runStream\<close>. The agent (conversation, browser) is a state of
  type \<open>'s\<close>, taken after \<open>setupMessages\<close>; \<open>stepFn n previous\<close> is \<open>Agent.step\<close>
  with the step number and the previous result, returning the result and the summary or
  the error thrown. \<open>isDone = result.isDone || false\<close> is \<open>doneOf\<close>.
\<close>

definition doneOf :: "ActionResult \<Rightarrow> bool" where
  "doneOf r = (case isDone r of Some b \<Rightarrow> b | None \<Rightarrow> False)"

function run_loop ::
  "(nat \<Rightarrow> ActionResult option \<Rightarrow> 's \<Rightarrow> 's \<times> (error + ActionResult \<times> string)) \<Rightarrow>
   nat \<Rightarrow> nat \<Rightarrow> ActionResult option \<Rightarrow> bool \<Rightarrow> 's \<Rightarrow>
   's \<times> nat \<times> ActionResult option \<times> error option" where
  "run_loop stepFn maxSteps stepNo res done s =
     (if \<not> done \<and> stepNo < maxSteps then
        (case stepFn stepNo res s of
           (s', Inl e) \<Rightarrow> (s', stepNo, res, Some e)
         | (s', Inr (stepResult, summary)) \<Rightarrow>
             if doneOf stepResult then (s', Suc stepNo, Some stepResult, None)
             else run_loop stepFn maxSteps (Suc stepNo) (Some stepResult) (doneOf stepResult) s')
      else (s, stepNo, res, None))"
  by pat_completeness auto
termination
  by (relation "measure (\<lambda>(stepFn, maxSteps, stepNo, res, done, s). maxSteps - stepNo)") auto

declare run_loop.simps [simp del]

text \<open>
  \<open>run\<close>: the \<open>finally\<close> block ends with \<open>return\<close>, so the output built there is what
  the call returns, also when the loop has thrown; the error caught in the loop is the
  last component here, for reference. \<open>returnAgentState\<close> has its default \<open>false\<close>.
\<close>

definition noResult :: ActionResult where
  "noResult = \<lparr>isDone = None, content = None, error = Some ''No result produced'', giveControl = None\<rparr>"

definition run ::
  "(nat \<Rightarrow> ActionResult option \<Rightarrow> 's \<Rightarrow> 's \<times> (error + ActionResult \<times> string)) \<Rightarrow>
   nat \<Rightarrow> 's \<Rightarrow> 's \<times> AgentOutput \<times> error option" where
  "run stepFn maxSteps s =
     (case run_loop stepFn maxSteps 0 None False s of
        (s', stepNo, res, caught) \<Rightarrow>
          (s', \<lparr>agentState = None,
                 result = (case res of Some r \<Rightarrow> r | None \<Rightarrow> noResult),
                 stepCount = stepNo\<rparr>, caught))"

text \<open>Template strings print a number in decimal.\<close>

function decimal :: "nat \<Rightarrow> string" where
  "decimal n =
     (if n < 10 then [''0123456789'' ! n] else decimal (n div 10) @ [''0123456789'' ! (n mod 10)])"
  by pat_completeness auto
termination
  by (relation "measure id") auto

declare decimal.simps [simp del]

text \<open>
  \<open>runStream\<close>: the chunks enqueued, in order. The clock is the environment:
  \<open>elapsed n\<close> is \<open>Date.now() - startTime\<close> at the check after \<open>n\<close> steps. Every path
  that enqueues a chunk other than a step chunk closes the stream and the browser. The
  loop is the body of a \<open>Laminar.withSpan\<close> call that is not awaited, so the
  \<open>catch\<close> around that call never sees an error thrown by a step: the loop stops,
  nothing more is enqueued, and neither the stream nor the browser is closed.
\<close>

definition timedOut :: "rat option \<Rightarrow> (nat \<Rightarrow> rat) \<Rightarrow> nat \<Rightarrow> bool" where
  "timedOut timeout elapsed n = (case timeout of None \<Rightarrow> False | Some t \<Rightarrow> elapsed n > t)"

function stream_loop ::
  "(nat \<Rightarrow> ActionResult option \<Rightarrow> 's \<Rightarrow> 's \<times> (error + ActionResult \<times> string)) \<Rightarrow>
   nat \<Rightarrow> rat option \<Rightarrow> (nat \<Rightarrow> rat) \<Rightarrow> nat \<Rightarrow> ActionResult option \<Rightarrow> bool \<Rightarrow> 's \<Rightarrow>
   chunk list \<Rightarrow> 's \<times> chunk list" where
  "stream_loop stepFn maxSteps timeout elapsed stepNo res done s out =
     (if \<not> done \<and> stepNo < maxSteps then
        (case stepFn stepNo res s of
           (s', Inl e) \<Rightarrow> (s', out)
         | (s', Inr (stepResult, summary)) \<Rightarrow>
             if timedOut timeout elapsed (Suc stepNo)
             then (s', out @ [TimeoutChunk stepResult summary (Suc stepNo)])
             else if doneOf stepResult
             then (s', out @ [StepChunk stepResult summary,
                     FinalOutputChunk \<lparr>agentState = None, result = stepResult, stepCount = Suc stepNo\<rparr>])
             else stream_loop stepFn maxSteps timeout elapsed (Suc stepNo) (Some stepResult)
                    (doneOf stepResult) s' (out @ [StepChunk stepResult summary]))
      else if \<not> done
      then (s, out @ [ErrorChunk (''Maximum number of steps reached: '' @ decimal maxSteps)])
      else (s, out))"
  by pat_completeness auto
termination
  by (relation "measure (\<lambda>(stepFn, maxSteps, timeout, elapsed, stepNo, res, done, s, out).
        maxSteps - stepNo)") auto

declare stream_loop.simps [simp del]

definition runStream ::
  "(nat \<Rightarrow> ActionResult option \<Rightarrow> 's \<Rightarrow> 's \<times> (error + ActionResult \<times> string)) \<Rightarrow>
   nat \<Rightarrow> rat option \<Rightarrow> (nat \<Rightarrow> rat) \<Rightarrow> 's \<Rightarrow> 's \<times> chunk list" where
  "runStream stepFn maxSteps timeout elapsed s =
     stream_loop stepFn maxSteps timeout elapsed 0 None False s []"

section \<open>Notions used in the statements\<close>

subsection \<open>Sort keys\<close>

text \<open>
  The three comparators order by a key: the top edge, the left edge, and the pair of
  negated area and negated weight under the lexicographic order.
\<close>

definition topKey :: "store \<Rightarrow> ref \<Rightarrow> rat" where
  "topKey h r = top' (rect (h r))"

definition leftKey :: "store \<Rightarrow> ref \<Rightarrow> rat" where
  "leftKey h r = left (rect (h r))"

definition areaWeightKey :: "store \<Rightarrow> ref \<Rightarrow> rat \<times> rat" where
  "areaWeightKey h r = (- rectArea (h r), - weight (h r))"

text \<open>\<open>a\<close> may stand before \<open>b\<close>: larger area, or equal area and weight not smaller.\<close>

definition areaWeightOrder :: "store \<Rightarrow> ref \<Rightarrow> ref \<Rightarrow> bool" where
  "areaWeightOrder h a b \<longleftrightarrow>
     rectArea (h a) > rectArea (h b) \<or> (rectArea (h a) = rectArea (h b) \<and> weight (h a) \<ge> weight (h b))"

subsection \<open>The tests of the overlap scan\<close>

definition overThreshold :: "store \<Rightarrow> rat \<Rightarrow> ref \<Rightarrow> ref \<Rightarrow> bool" where
  "overThreshold h thr cur e \<longleftrightarrow> calculateIou (rect (h cur)) (rect (h e)) > thr"

definition containedIn :: "store \<Rightarrow> ref \<Rightarrow> ref \<Rightarrow> bool" where
  "containedIn h cur e \<longleftrightarrow> isFullyContained (rect (h cur)) (rect (h e))"

definition dominates :: "store \<Rightarrow> ref \<Rightarrow> ref \<Rightarrow> bool" where
  "dominates h e cur \<longleftrightarrow> weight (h e) \<ge> weight (h cur) \<and> zIndex (h e) = zIndex (h cur)"

definition atLeastHalf :: "store \<Rightarrow> ref \<Rightarrow> ref \<Rightarrow> bool" where
  "atLeastHalf h cur e \<longleftrightarrow> rectArea (h cur) \<ge> rectArea (h e) * (1 / 2)"

text \<open>
  An accepted element leaves a candidate undecided when the scan passes it by: the IoU
  is not over the threshold and none of the two containment branches fires.
\<close>

definition undecided :: "store \<Rightarrow> rat \<Rightarrow> ref \<Rightarrow> ref \<Rightarrow> bool" where
  "undecided h thr cur e \<longleftrightarrow>
     \<not> overThreshold h thr cur e \<and>
     \<not> (containedIn h cur e \<and> (dominates h e cur \<or> atLeastHalf h cur e))"

text \<open>
  A candidate evicts an accepted element when the scan, arriving at that element, removes
  it and appends the candidate: the IoU is not over the threshold, the candidate lies
  inside the element, the element does not dominate it, and its area is at least half the
  element's.
\<close>

definition evicts :: "store \<Rightarrow> rat \<Rightarrow> ref \<Rightarrow> ref \<Rightarrow> bool" where
  "evicts h thr cur e \<longleftrightarrow>
     \<not> overThreshold h thr cur e \<and> containedIn h cur e \<and> \<not> dominates h e cur \<and> atLeastHalf h cur e"

subsection \<open>Rows\<close>

text \<open>
  \<open>b\<close> joins the row whose last element is \<open>a\<close>; two consecutive rows are separated
  when the first element of the second did not join the first.
\<close>

definition sameRow :: "store \<Rightarrow> ref \<Rightarrow> ref \<Rightarrow> bool" where
  "sameRow h a b \<longleftrightarrow> \<bar>top' (rect (h b)) - top' (rect (h a))\<bar> \<le> ROW_THRESHOLD"

definition rowGap :: "store \<Rightarrow> ref list \<Rightarrow> ref list \<Rightarrow> bool" where
  "rowGap h r1 r2 \<longleftrightarrow> \<not> sameRow h (last r1) (hd r2)"

definition allRows :: "ref list list \<Rightarrow> ref list \<Rightarrow> ref list list" where
  "allRows rows currentRow = (if currentRow \<noteq> [] then rows @ [currentRow] else rows)"

definition rowsInv :: "store \<Rightarrow> ref list list \<Rightarrow> bool" where
  "rowsInv h rs \<longleftrightarrow>
     (\<forall>r \<in> set rs. r \<noteq> [] \<and> successively (sameRow h) r) \<and> successively (rowGap h) rs"

subsection \<open>Markers of a message\<close>

text \<open>
  A message carries an active marker when one of its parts does; \<open>clearMessage\<close> is what
  the loop of \<open>getMessages\<close> does to a message once a later marker has been found.
\<close>

definition marked :: "message \<Rightarrow> bool" where
  "marked m = (case contentOf m of Str c \<Rightarrow> False | Parts ps \<Rightarrow> list_ex activeMarker ps)"

definition clearMessage :: "message \<Rightarrow> message" where
  "clearMessage m = (if isSystem m then m else removeCacheControl m)"

text \<open>
  The active markers of a message are its parts that pass the test of
  \<open>hasCacheControl\<close>; those of a log are counted over all its messages.
\<close>

definition activeMarkers :: "message \<Rightarrow> nat" where
  "activeMarkers m =
     (case contentOf m of Str c \<Rightarrow> 0 | Parts ps \<Rightarrow> length (filter activeMarker ps))"

definition activeInLog :: "message list \<Rightarrow> nat" where
  "activeInLog ms = sum_list (map activeMarkers ms)"

subsection \<open>A model that never finishes\<close>

definition neverDone :: "(nat \<Rightarrow> ActionResult option \<Rightarrow> 's \<Rightarrow> 's \<times> (error + ActionResult \<times> string)) \<Rightarrow> bool" where
  "neverDone stepFn \<longleftrightarrow>
     (\<forall>n res s. \<exists>s' r summary. stepFn n res s = (s', Inr (r, summary)) \<and> \<not> doneOf r)"

subsection \<open>Row numbers and stores of the same shape\<close>

text \<open>
  The number of a row is the number of rows that end above a given top edge; the reading
  order sorts by row number, then left edge. Rows lie apart when each is not empty, each
  ends above the start of the next, and their concatenation ascends in the top edge. Two
  stores have the same shape when they agree on everything the resolver compares, that is,
  on all but the index.
\<close>

definition rowNo :: "store \<Rightarrow> ref list list \<Rightarrow> rat \<Rightarrow> nat" where
  "rowNo h rows t = length (filter (\<lambda>row. topKey h (last row) < t) rows)"

definition rowLeftKey :: "store \<Rightarrow> ref list list \<Rightarrow> ref \<Rightarrow> nat \<times> rat" where
  "rowLeftKey h rows r = (rowNo h rows (topKey h r), leftKey h r)"

definition rowsApart :: "store \<Rightarrow> ref list list \<Rightarrow> bool" where
  "rowsApart h rows \<longleftrightarrow>
     (\<forall>row \<in> set rows. row \<noteq> []) \<and>
     successively (\<lambda>r1 r2. topKey h (last r1) < topKey h (hd r2)) rows \<and>
     sorted (map (topKey h) (concat rows))"

definition sameShape :: "store \<Rightarrow> store \<Rightarrow> bool" where
  "sameShape h h' \<longleftrightarrow>
     (\<forall>r. rect (h' r) = rect (h r) \<and> weight (h' r) = weight (h r) \<and> zIndex (h' r) = zIndex (h r))"

section \<open>Concrete inputs\<close>

text \<open>An element with the given edges, weight, z-index and index; width and height fit the edges.\<close>

definition element :: "rat \<Rightarrow> rat \<Rightarrow> rat \<Rightarrow> rat \<Rightarrow> rat \<Rightarrow> int \<Rightarrow> int \<Rightarrow> InteractiveElement" where
  "element l t r b w z i =
     \<lparr>index = i, tagName = ''div'', elementText = [], attributes = [],
      viewport = \<lparr>x = l, y = t\<rparr>, page = \<lparr>x = l, y = t\<rparr>, center = \<lparr>x = (l + r) / 2, y = (t + b) / 2\<rparr>,
      weight = w, browserAgentId = [], inputType = None,
      rect = \<lparr>left = l, top' = t, right = r, bottom = b, width = r - l, height = b - t\<rparr>,
      zIndex = z\<rparr>"

text \<open>A 10 by 10 box of weight 1 and, inside it, a 10 by 8 box of weight 2 (IoU 0.8).\<close>

definition storeContained :: store where
  "storeContained = (\<lambda>r. if r = 0 then element 0 0 10 10 1 0 0 else element 0 0 10 8 2 0 0)"

text \<open>
  A 100 by 100 box, a 101 by 65 box that sticks out of it, and a 100 by 60 box on
  another layer that lies inside the first (IoU 0.6) and nearly covers the second.
\<close>

definition storeEvict :: store where
  "storeEvict = (\<lambda>r. if r = 0 then element 0 0 100 100 1 0 0
                       else if r = 1 then element 0 0 101 65 1 0 0
                       else element 0 0 100 60 1 1 0)"

text \<open>One 10 by 10 box whose index is 0, at every address.\<close>

definition storeSingle :: store where
  "storeSingle = (\<lambda>r. element 0 0 10 10 1 0 0)"

text \<open>Two 10 by 10 boxes of equal weight, one pixel apart (IoU 9/11).\<close>

definition storeTie :: store where
  "storeTie = (\<lambda>r. if r = 0 then element 0 0 10 10 1 0 0 else element 1 0 11 10 1 0 0)"

text \<open>
  Five small boxes far apart, indexes all 7: tops 0, 15, 40, 30, 15 and lefts 50, 10, 0, 5, 60;
  the areas of the first three are 100, 200 and 300.
\<close>

definition storeRows :: store where
  "storeRows = (\<lambda>r. if r = 0 then element 50 0 60 10 1 0 7
                      else if r = 1 then element 10 15 30 25 2 0 7
                      else if r = 2 then element 0 40 30 50 3 0 7
                      else if r = 3 then element 5 30 6 31 1 0 7
                      else element 60 15 61 16 1 0 7)"

text \<open>
  Five boxes: a 10 by 10 box and a 10 by 8 box inside it (IoU 0.8), a 30 by 10 box lower on
  the page, and a 20 by 10 box with a 2 by 2 box of lower weight inside it.
\<close>

definition storeNested :: store where
  "storeNested = (\<lambda>r. if r = 0 then element 50 0 60 10 1 0 0
                        else if r = 1 then element 50 0 60 8 2 0 0
                        else if r = 2 then element 0 40 30 50 3 0 0
                        else if r = 3 then element 10 15 30 25 2 0 0
                        else element 12 16 14 18 1 0 0)"

text \<open>A point and a segment through it, both of area 0, with equal weight.\<close>

definition storePointInSegment :: store where
  "storePointInSegment = (\<lambda>r. if r = 0 then element 5 0 5 0 1 0 0 else element 0 0 10 0 1 0 0)"

definition snapshot :: "string \<Rightarrow> BrowserState" where
  "snapshot u = \<lparr>url = u, tabs = [], viewport' = newViewport,
     interactiveElements = Map.empty, screenshotWithHighlights = None, screenshot = None\<rparr>"

text \<open>A capture cycle that fails on every call, and one that fails twice and then succeeds.\<close>

definition failing :: "nat \<Rightarrow> error + BrowserState" where
  "failing k = Inl (Error ''capture failed'')"

definition failsTwice :: "nat \<Rightarrow> error + BrowserState" where
  "failsTwice k = (if k < 2 then Inl (Error ''capture failed'') else Inr (snapshot ''https://example.com''))"

text \<open>A log of six messages with markers on the second and the fifth.\<close>

definition logMarked25 :: "message list" where
  "logMarked25 =
     [UserMessage (Parts [TextContent ''one'' None]) False,
      UserMessage (Parts [TextContent ''two'' (Some True)]) False,
      AssistantMessage (Parts [TextContent ''three'' None]) False,
      UserMessage (Parts [TextContent ''four'' (Some False)]) False,
      UserMessage (Parts [TextContent ''five'' (Some True), ImageContent None None]) True,
      AssistantMessage (Parts [TextContent ''six'' None]) False]"

text \<open>A log whose last message has two marked parts.\<close>

definition logTwoParts :: "message list" where
  "logTwoParts =
     [UserMessage (Parts [TextContent ''one'' (Some True)]) False,
      UserMessage (Parts [TextContent ''two'' (Some True), TextContent ''three'' (Some True)]) False]"

text \<open>A log whose first message has a string as content, before two marked messages.\<close>

definition logStringContent :: "message list" where
  "logStringContent =
     [UserMessage (Str ''note'') False,
      UserMessage (Parts [TextContent ''one'' (Some True)]) False,
      UserMessage (Parts [TextContent ''two'' (Some True)]) False]"

text \<open>
  A log of the shape that two steps leave: system prompt, task (marked), the model's first
  turn, the compact state of step 1 (marked), the model's second turn.
\<close>

definition logAfterStep1 :: "message list" where
  "logAfterStep1 =
     [SystemMessage ''system prompt'',
      UserMessage (Parts [TextContent ''</scroll_over_element_example>'' (Some True),
                          TextContent ''task'' None]) False,
      AssistantMessage (Parts [TextContent ''<output_0>'' None]) False,
      UserMessage (Parts [TextContent ''<action_output_0>'' (Some True),
                          TextContent ''<state_1>'' None]) True,
      AssistantMessage (Parts [TextContent ''<output_1>'' None]) False]"

definition scrolled :: ActionResult where
  "scrolled = \<lparr>isDone = None, content = Some ''scrolled'', error = None, giveControl = None\<rparr>"

text \<open>
  A step that always succeeds with a result that is not done; the state counts its calls.
\<close>

definition idleStep :: "nat \<Rightarrow> ActionResult option \<Rightarrow> nat \<Rightarrow> nat \<times> (error + ActionResult \<times> string)" where
  "idleStep n res s = (Suc s, Inr (scrolled, ''scroll down''))"

text \<open>A model call that always fails.\<close>

definition modelFails :: "message list \<Rightarrow> error + unit" where
  "modelFails inputMessages = Inl (Error ''model call failed'')"

definition stop :: "message list \<Rightarrow> BrowserState \<Rightarrow> unit \<Rightarrow> message list \<times> (error + unit)" where
  "stop messages st modelOutput = (messages, Inr ())"

text \<open>A formatter of the state description that ignores its arguments.\<close>

definition describeNothing :: "BrowserState \<Rightarrow> ActionResult \<Rightarrow> string" where
  "describeNothing st prev = ''<viewport>''"

section \<open>Lemmas\<close>

subsection \<open>Sorting with the comparators\<close>

lemma insert_by_insort_key:
  assumes "\<And>a b. cmp a b \<le> 0 \<longleftrightarrow> f a \<le> f b"
  shows "insert_by cmp a bs = insort_key f a bs"
  by (induction bs) (simp_all add: assms)

lemma sort_by_sort_key:
  assumes "\<And>a b. cmp a b \<le> 0 \<longleftrightarrow> f a \<le> f b"
  shows "sort_by cmp xs = sort_key f xs"
  unfolding sort_by_def
  by (induction xs) (simp_all add: insert_by_insort_key [OF assms])

lemma sort_by_compareTop: "sort_by (compareTop h) xs = sort_key (topKey h) xs"
  by (rule sort_by_sort_key) (simp add: compareTop_def topKey_def)

lemma sort_by_compareLeft: "sort_by (compareLeft h) xs = sort_key (leftKey h) xs"
  by (rule sort_by_sort_key) (simp add: compareLeft_def leftKey_def)

lemma compareAreaWeight_le:
  "compareAreaWeight h a b \<le> 0 \<longleftrightarrow> areaWeightKey h a \<le> areaWeightKey h b"
  by (auto simp: compareAreaWeight_def areaWeightKey_def Let_def less_eq_prod_def)

lemma sort_by_compareAreaWeight:
  "sort_by (compareAreaWeight h) xs = sort_key (areaWeightKey h) xs"
  by (rule sort_by_sort_key) (rule compareAreaWeight_le)

subsection \<open>Rows and indexes\<close>

lemma rowsOf_allRows: "rowsOf h ys = (case groupRows h [] [] ys of (rows, cur) \<Rightarrow> allRows rows cur)"
  by (simp add: rowsOf_def allRows_def)

lemma groupRows_concat:
  "groupRows h rows cur es = (rows', cur') \<Longrightarrow> concat rows' @ cur' = concat rows @ cur @ es"
  by (induction h rows cur es rule: groupRows.induct) (auto split: if_splits)

lemma concat_allRows: "concat (allRows rows cur) = concat rows @ cur"
  by (simp add: allRows_def)

lemma concat_rowsOf: "concat (rowsOf h ys) = ys"
  by (auto simp: rowsOf_allRows concat_allRows split: prod.splits dest: groupRows_concat)

lemma rowsInv_snoc_same:
  assumes "rowsInv h (rows @ [cur])" "cur \<noteq> []" "sameRow h (last cur) e"
  shows "rowsInv h (rows @ [cur @ [e]])"
  using assms
  by (auto simp: rowsInv_def successively_append_iff rowGap_def)

lemma rowsInv_snoc_new:
  assumes "rowsInv h (rows @ [cur])" "cur \<noteq> []" "\<not> sameRow h (last cur) e"
  shows "rowsInv h ((rows @ [cur]) @ [[e]])"
  using assms
  by (auto simp: rowsInv_def successively_append_iff rowGap_def)

lemma groupRows_inv:
  assumes "groupRows h rows cur es = (rows', cur')"
    and "rowsInv h (allRows rows cur)" and "cur = [] \<longrightarrow> rows = []"
  shows "rowsInv h (allRows rows' cur') \<and> (cur' = [] \<longrightarrow> rows' = [])"
  using assms
proof (induction h rows cur es rule: groupRows.induct)
  case (1 h rows currentRow)
  then show ?case by simp
next
  case (2 h rows currentRow element es)
  show ?case
  proof (cases "currentRow = []")
    case True
    with "2.prems" have g: "groupRows h rows [element] es = (rows', cur')" and r: "rows = []"
      by simp_all
    have "rowsInv h (allRows rows [element])"
      by (simp add: r allRows_def rowsInv_def)
    with True g show ?thesis
      by (intro "2.IH"(1)) simp_all
  next
    case False
    show ?thesis
    proof (cases "sameRow h (last currentRow) element")
      case True
      then have c: "\<bar>top' (rect (h element)) - top' (rect (h (last currentRow)))\<bar> \<le> ROW_THRESHOLD"
        by (simp add: sameRow_def)
      with False "2.prems" have g: "groupRows h rows (currentRow @ [element]) es = (rows', cur')"
        by simp
      from False True "2.prems"(2) have "rowsInv h (allRows rows (currentRow @ [element]))"
        by (simp add: allRows_def rowsInv_snoc_same)
      with False c g show ?thesis
        by (intro "2.IH"(2)) simp_all
    next
      case same: False
      then have c: "\<not> \<bar>top' (rect (h element)) - top' (rect (h (last currentRow)))\<bar> \<le> ROW_THRESHOLD"
        by (simp add: sameRow_def)
      with False "2.prems" have g: "groupRows h (rows @ [currentRow]) [element] es = (rows', cur')"
        by simp
      from False same "2.prems"(2) have "rowsInv h (allRows (rows @ [currentRow]) [element])"
        using rowsInv_snoc_new [of h rows currentRow element] by (simp add: allRows_def)
      with False c g show ?thesis
        by (intro "2.IH"(3)) simp_all
    qed
  qed
qed

lemma rowsInv_rowsOf: "rowsInv h (rowsOf h ys)"
proof -
  obtain rows cur where g: "groupRows h [] [] ys = (rows, cur)" by force
  have "rowsInv h (allRows [] [])" by (simp add: allRows_def rowsInv_def)
  with g have "rowsInv h (allRows rows cur)" using groupRows_inv by blast
  with g show ?thesis by (simp add: rowsOf_allRows)
qed

lemma assignIndex_other: "r \<notin> set rs \<Longrightarrow> assignIndex h i rs r = h r"
  by (induction rs arbitrary: h i) auto

lemma assignIndex_nth:
  "distinct rs \<Longrightarrow> k < length rs \<Longrightarrow> assignIndex h i rs (rs ! k) = (h (rs ! k))\<lparr>index := int (i + k)\<rparr>"
proof (induction rs arbitrary: h i k)
  case Nil
  then show ?case by simp
next
  case (Cons r rs)
  show ?case
  proof (cases k)
    case 0
    with Cons.prems show ?thesis by (simp add: assignIndex_other)
  next
    case (Suc j)
    with Cons.prems have ne: "rs ! j \<noteq> r" and j: "j < length rs" and d: "distinct rs" by auto
    define h' where "h' = h(r := (h r)\<lparr>index := int i\<rparr>)"
    have "assignIndex h' (Suc i) rs (rs ! j) = (h' (rs ! j))\<lparr>index := int (Suc i + j)\<rparr>"
      by (rule Cons.IH [OF d j])
    moreover have "h' (rs ! j) = h (rs ! j)" using ne by (simp add: h'_def)
    moreover have "assignIndex h i (r # rs) ((r # rs) ! k) = assignIndex h' (Suc i) rs (rs ! j)"
      using Suc by (simp add: h'_def)
    ultimately show ?thesis using Suc by simp
  qed
qed

lemma assignIndex_frame:
  "\<exists>n. assignIndex h i rs r = (h r)\<lparr>index := n\<rparr>"
proof (induction rs arbitrary: h i)
  case Nil
  have "h r = (h r)\<lparr>index := index (h r)\<rparr>" by simp
  then show ?case by (metis assignIndex.simps(1))
next
  case (Cons a rs)
  define h' where "h' = h(a := (h a)\<lparr>index := int i\<rparr>)"
  obtain n where n: "assignIndex h' (Suc i) rs r = (h' r)\<lparr>index := n\<rparr>"
    using Cons [of h' "Suc i"] by blast
  have "assignIndex h i (a # rs) r = assignIndex h' (Suc i) rs r"
    by (simp add: h'_def)
  moreover have "(h' r)\<lparr>index := n\<rparr> = (h r)\<lparr>index := n\<rparr>"
    by (simp add: h'_def)
  ultimately show ?case using n by metis
qed

subsection \<open>The overlap scan\<close>

lemma scanFiltered_undecided_prefix:
  "\<forall>x \<in> set pre. undecided h thr cur x \<Longrightarrow>
   scanFiltered h thr cur (pre @ rest) =
     (case scanFiltered h thr cur rest of (shouldAdd, rest') \<Rightarrow> (shouldAdd, pre @ rest'))"
  by (induction pre)
     (auto simp: undecided_def overThreshold_def containedIn_def dominates_def atLeastHalf_def
           split: prod.splits)

lemma scanFiltered_over:
  "overThreshold h thr cur e \<Longrightarrow> scanFiltered h thr cur (e # post) = (False, e # post)"
  by (simp add: overThreshold_def)

lemma scanFiltered_dominated:
  "\<not> overThreshold h thr cur e \<Longrightarrow> containedIn h cur e \<Longrightarrow> dominates h e cur \<Longrightarrow>
   scanFiltered h thr cur (e # post) = (False, e # post)"
  by (simp add: overThreshold_def containedIn_def dominates_def)

lemma scanFiltered_evict:
  "\<not> overThreshold h thr cur e \<Longrightarrow> containedIn h cur e \<Longrightarrow> \<not> dominates h e cur \<Longrightarrow>
   atLeastHalf h cur e \<Longrightarrow> scanFiltered h thr cur (e # post) = (True, post)"
  by (simp add: overThreshold_def containedIn_def dominates_def atLeastHalf_def)

lemma filterStep_all_undecided:
  assumes "\<forall>x \<in> set acc. undecided h thr cur x"
  shows "filterStep h thr acc cur = acc @ [cur]"
  using scanFiltered_undecided_prefix [OF assms, of "[]"]
  by (simp add: filterStep_def)

lemma filterStep_over:
  assumes "\<forall>x \<in> set pre. undecided h thr cur x" and "overThreshold h thr cur e"
  shows "filterStep h thr (pre @ e # post) cur = pre @ e # post"
  using scanFiltered_undecided_prefix [OF assms(1), of "e # post"] assms(2)
  by (simp add: filterStep_def scanFiltered_over del: scanFiltered.simps)

lemma filterStep_dominated:
  assumes "\<forall>x \<in> set pre. undecided h thr cur x"
    and "\<not> overThreshold h thr cur e" "containedIn h cur e" "dominates h e cur"
  shows "filterStep h thr (pre @ e # post) cur = pre @ e # post"
  using scanFiltered_undecided_prefix [OF assms(1), of "e # post"] assms(2-)
  by (simp add: filterStep_def scanFiltered_dominated del: scanFiltered.simps)

lemma filterStep_evict:
  assumes "\<forall>x \<in> set pre. undecided h thr cur x"
    and "\<not> overThreshold h thr cur e" "containedIn h cur e" "\<not> dominates h e cur"
      "atLeastHalf h cur e"
  shows "filterStep h thr (pre @ e # post) cur = pre @ post @ [cur]"
  using scanFiltered_undecided_prefix [OF assms(1), of "e # post"] assms(2-)
  by (simp add: filterStep_def scanFiltered_evict del: scanFiltered.simps)

lemma areaWeightOrder_key: "areaWeightOrder h a b \<longleftrightarrow> areaWeightKey h a \<le> areaWeightKey h b"
  by (auto simp: areaWeightOrder_def areaWeightKey_def less_eq_prod_def)

lemma sorted_wrt_areaWeight: "sorted_wrt (areaWeightOrder h) (sort_by (compareAreaWeight h) xs)"
proof -
  have "sorted (map (areaWeightKey h) (sort_key (areaWeightKey h) xs))"
    by (rule sorted_sort_key)
  then show ?thesis
    by (simp add: sort_by_compareAreaWeight sorted_map areaWeightOrder_key [abs_def])
qed

lemma mset_sort_by_areaWeight: "mset (sort_by (compareAreaWeight h) xs) = mset xs"
  by (simp add: sort_by_compareAreaWeight)

lemma stable_sort_by_areaWeight:
  "filter (\<lambda>r. rectArea (h r) = a \<and> weight (h r) = w) (sort_by (compareAreaWeight h) xs) =
   filter (\<lambda>r. rectArea (h r) = a \<and> weight (h r) = w) xs"
proof -
  have "(\<lambda>r. rectArea (h r) = a \<and> weight (h r) = w) = (\<lambda>r. areaWeightKey h r = (- a, - w))"
    by (auto simp: areaWeightKey_def)
  then show ?thesis by (simp add: sort_by_compareAreaWeight sort_key_stable)
qed

lemma filterOverlappingElements_eq:
  "filterOverlappingElements h xs thr =
     (sort_by (compareAreaWeight h) xs, foldl (filterStep h thr) [] (sort_by (compareAreaWeight h) xs))"
  by (simp add: filterOverlappingElements_def Let_def sort_by_def)

lemma sortElementsByPosition_eq:
  "sortElementsByPosition h xs =
     (let res = concat (map (sort_by (compareLeft h)) (rowsOf h (sort_by (compareTop h) xs)))
      in (assignIndex h 0 res, res))"
  by (simp add: sortElementsByPosition_def Let_def sort_by_def rowsOf_def)

subsection \<open>Permutations of the input, and the index fields\<close>

lemma sort_by_areaWeight_perm_invariant:
  assumes "mset ys = mset xs" and "inj_on (areaWeightKey h) (set xs)"
  shows "sort_by (compareAreaWeight h) ys = sort_by (compareAreaWeight h) xs"
proof -
  have "mset xs = mset (sort_key (areaWeightKey h) ys)" using assms(1) by simp
  then have "sort_key (areaWeightKey h) xs = sort_key (areaWeightKey h) ys"
    using assms(2) by (rule sort_key_inj_key_eq) simp
  then show ?thesis by (simp add: sort_by_compareAreaWeight)
qed

lemma inj_on_areaWeightKey:
  "inj_on (areaWeightKey h) A \<longleftrightarrow>
   (\<forall>a \<in> A. \<forall>b \<in> A. rectArea (h a) = rectArea (h b) \<and> weight (h a) = weight (h b) \<longrightarrow> a = b)"
  by (auto simp: inj_on_def areaWeightKey_def)

lemma filterElements_perm_invariant:
  assumes "mset ys = mset xs"
    and "\<forall>a \<in> set xs. \<forall>b \<in> set xs. rectArea (h a) = rectArea (h b) \<and> weight (h a) = weight (h b) \<longrightarrow> a = b"
  shows "filterElements h ys thr = filterElements h xs thr"
proof -
  from assms(2) have "inj_on (areaWeightKey h) (set xs)" by (simp add: inj_on_areaWeightKey)
  with assms(1) have "sort_by (compareAreaWeight h) ys = sort_by (compareAreaWeight h) xs"
    by (rule sort_by_areaWeight_perm_invariant)
  then show ?thesis by (simp add: filterElements_def filterOverlappingElements_eq)
qed

lemma mset_rowsOf: "mset (concat (rowsOf h ys)) = mset ys"
  by (simp add: concat_rowsOf)

lemma mset_concat_map_sort: "mset (concat (map (sort_key f) rs)) = mset (concat rs)"
  by (induction rs) simp_all

lemma mset_position: "mset (snd (sortElementsByPosition h xs)) = mset xs"
  by (simp add: sortElementsByPosition_eq Let_def sort_by_compareLeft [abs_def] sort_by_compareTop
      mset_concat_map_sort concat_rowsOf)

lemma sortElementsByPosition_index:
  assumes "distinct xs" and "sortElementsByPosition h xs = (h', res)" and "i < length res"
  shows "h' (res ! i) = (h (res ! i))\<lparr>index := int i\<rparr>"
proof -
  have "mset res = mset xs" using mset_position [of h xs] assms(2) by simp
  with assms(1) have "distinct res" by (metis mset_eq_imp_distinct_iff)
  moreover have "h' = assignIndex h 0 res"
    using assms(2) by (auto simp: sortElementsByPosition_eq Let_def)
  ultimately show ?thesis using assignIndex_nth [of res i h 0] assms(3) by simp
qed

lemma sortElementsByPosition_other:
  assumes "sortElementsByPosition h xs = (h', res)" and "r \<notin> set xs"
  shows "h' r = h r"
proof -
  have "mset res = mset xs" using mset_position [of h xs] assms(1) by simp
  then have "set res = set xs" by (rule mset_eq_setD)
  moreover have "h' = assignIndex h 0 res"
    using assms(1) by (auto simp: sortElementsByPosition_eq Let_def)
  ultimately show ?thesis using assms(2) by (simp add: assignIndex_other)
qed

lemma sortElementsByPosition_only_index:
  assumes "sortElementsByPosition h xs = (h', res)"
  shows "\<exists>n. h' r = (h r)\<lparr>index := n\<rparr>"
proof -
  have "h' = assignIndex h 0 res"
    using assms(1) by (auto simp: sortElementsByPosition_eq Let_def)
  then show ?thesis by (simp add: assignIndex_frame)
qed

lemma sorted_top_sort_by: "sorted (map (\<lambda>r. top' (rect (h r))) (sort_by (compareTop h) xs))"
  using sorted_sort_key [of "topKey h" xs] by (simp add: sort_by_compareTop topKey_def [abs_def])

lemma sorted_left_sort_by: "sorted (map (\<lambda>r. left (rect (h r))) (sort_by (compareLeft h) xs))"
  using sorted_sort_key [of "leftKey h" xs] by (simp add: sort_by_compareLeft leftKey_def [abs_def])

subsection \<open>The state synchronizer\<close>

lemma updateState_inner_defined:
  "state b = Some s \<Longrightarrow> cycle = Inl e \<Longrightarrow> updateState_inner b cycle = (b, Inr s)"
  by (simp add: updateState_inner_def)

lemma updateState_first_failure:
  assumes "state b = Some s" and "cycles 0 = Inl e"
  shows "updateState b cycles = (b, Inr s, [], 1)"
  using assms
  by (simp add: updateState_def backOff_def backOff_loop.simps [of _ _ _ 0]
      updateStateOptions_def updateState_inner_def delayBefore_def)

lemma updateState_inner_error:
  "updateState_inner b cycle = (b', Inl e) \<Longrightarrow> state b = None \<and> b' = b \<and> cycle = Inl e"
  by (auto simp: updateState_inner_def split: sum.splits option.splits)

lemma backOff_loop_error_state:
  assumes "backOff_loop opts (\<lambda>k b'. updateState_inner b' (cycles k)) retry n ds b = (b', Inl e, ds', calls)"
    and "n < numOfAttempts opts"
  shows "state b = None"
  using assms
  by (subst (asm) backOff_loop.simps)
     (auto simp: Let_def updateState_inner_def split: prod.splits sum.splits option.splits if_splits)

lemma updateState_error_only_without_state:
  assumes "fst (snd (updateState b cycles)) = Inl e"
  shows "state b = None"
proof -
  obtain b' r ds calls where bo:
    "backOff (\<lambda>k b'. updateState_inner b' (cycles k)) updateStateOptions (\<lambda>e. True) b = (b', r, ds, calls)"
    using prod_cases4 by blast
  with assms have "r = Inl e"
    by (cases r) (simp_all add: updateState_def)
  with bo show ?thesis
    using backOff_loop_error_state [of updateStateOptions cycles "\<lambda>e. True" 0 "[]" b b' e ds calls]
    by (simp add: backOff_def updateStateOptions_def)
qed

subsection \<open>Cache markers\<close>

lemma not_active_clearPart: "\<not> activeMarker (clearPart p)"
  by (induction p rule: clearPart.induct) simp_all

lemma clearPart_inactive: "\<not> activeMarker p \<Longrightarrow> clearPart p = p"
  by (induction p rule: clearPart.induct) simp_all

lemma contentOf_setContent: "\<not> isSystem m \<Longrightarrow> contentOf (setContent m ps) = Parts ps"
  by (cases m) simp_all

lemma isSystem_setContent: "isSystem (setContent m ps) = isSystem m"
  by (cases m) simp_all

lemma setContent_same: "contentOf m = Parts ps \<Longrightarrow> setContent m ps = m"
  by (cases m) simp_all

lemma marked_system: "isSystem m \<Longrightarrow> \<not> marked m"
  by (cases m) (simp_all add: marked_def)

lemma not_marked_removeCacheControl: "\<not> marked (removeCacheControl m)"
proof (cases "contentOf m")
  case (Str c)
  then show ?thesis by (simp add: removeCacheControl_def marked_def)
next
  case (Parts ps)
  then have "\<not> isSystem m" by (cases m) simp_all
  with Parts show ?thesis
    by (simp add: removeCacheControl_def marked_def contentOf_setContent list_ex_iff not_active_clearPart)
qed

lemma not_marked_clearMessage: "\<not> marked (clearMessage m)"
  by (simp add: clearMessage_def marked_system not_marked_removeCacheControl)

lemma removeCacheControl_unmarked: "\<not> marked m \<Longrightarrow> removeCacheControl m = m"
proof (cases "contentOf m")
  case (Str c)
  then show ?thesis by (simp add: removeCacheControl_def)
next
  case (Parts ps)
  assume "\<not> marked m"
  with Parts have "map clearPart ps = ps"
    by (simp add: marked_def list_ex_iff map_idI clearPart_inactive)
  with Parts show ?thesis by (simp add: removeCacheControl_def setContent_same)
qed

lemma hasCacheControl_Inr: "hasCacheControl m = Inr b \<Longrightarrow> b = marked m"
  by (auto simp: hasCacheControl_def marked_def split: message_content.splits)

lemma hasCacheControl_Parts: "contentOf m = Parts ps \<Longrightarrow> hasCacheControl m = Inr (marked m)"
  by (simp add: hasCacheControl_def marked_def)

lemma contentOf_removeCacheControl_Parts:
  "contentOf m = Parts ps \<Longrightarrow> contentOf (removeCacheControl m) = Parts (map clearPart ps)"
  by (cases m) (simp_all add: removeCacheControl_def)

lemma scanMessages_found:
  "scanMessages True ms = (ms', None) \<Longrightarrow> ms' = map clearMessage ms"
proof (induction ms arbitrary: ms')
  case Nil
  then show ?case by simp
next
  case (Cons m ms)
  show ?case
  proof (cases "isSystem m")
    case True
    with Cons.prems obtain r where "scanMessages True ms = (r, None)" "ms' = m # r"
      by (auto simp: Let_def split: sum.splits prod.splits option.splits)
    with Cons.IH True show ?thesis by (simp add: clearMessage_def)
  next
    case False
    with Cons.prems obtain b where b: "hasCacheControl (removeCacheControl m) = Inr b"
      by (auto simp: Let_def split: sum.splits prod.splits option.splits)
    then have "b = False"
      using hasCacheControl_Inr not_marked_removeCacheControl by blast
    with Cons.prems False b obtain r where "scanMessages True ms = (r, None)" "ms' = removeCacheControl m # r"
      by (auto simp: Let_def split: sum.splits prod.splits option.splits)
    with Cons.IH False show ?thesis by (simp add: clearMessage_def)
  qed
qed

lemma scanMessages_not_found:
  assumes "scanMessages False ms = (ms', None)"
  shows "((\<forall>m \<in> set ms. \<not> marked m) \<and> ms' = ms) \<or>
         (\<exists>later m earlier. ms = later @ m # earlier \<and> (\<forall>x \<in> set later. \<not> marked x) \<and> marked m \<and>
            ms' = later @ m # map clearMessage earlier)"
  using assms
proof (induction ms arbitrary: ms')
  case Nil
  then show ?case by simp
next
  case (Cons a ms)
  show ?case
  proof (cases "isSystem a")
    case True
    with Cons.prems obtain r where r: "scanMessages False ms = (r, None)" "ms' = a # r"
      by (auto simp: Let_def split: sum.splits prod.splits option.splits)
    from Cons.IH [OF r(1)] show ?thesis
    proof
      assume "(\<forall>m\<in>set ms. \<not> marked m) \<and> r = ms"
      with r True show ?thesis by (simp add: marked_system)
    next
      assume "\<exists>later m earlier. ms = later @ m # earlier \<and> (\<forall>x\<in>set later. \<not> marked x) \<and> marked m \<and>
            r = later @ m # map clearMessage earlier"
      then obtain later m earlier where d: "ms = later @ m # earlier" "\<forall>x\<in>set later. \<not> marked x"
        "marked m" "r = later @ m # map clearMessage earlier" by blast
      have "a # ms = (a # later) @ m # earlier" using d by simp
      moreover have "\<forall>x\<in>set (a # later). \<not> marked x" using d True by (simp add: marked_system)
      moreover have "ms' = (a # later) @ m # map clearMessage earlier" using d r by simp
      ultimately show ?thesis using d(3) by blast
    qed
  next
    case False
    with Cons.prems obtain b where b: "hasCacheControl a = Inr b"
      by (auto simp: Let_def split: sum.splits prod.splits option.splits)
    then have bm: "b = marked a" by (rule hasCacheControl_Inr)
    show ?thesis
    proof (cases "marked a")
      case True
      with Cons.prems False b bm obtain r where r: "scanMessages True ms = (r, None)" "ms' = a # r"
        by (auto simp: Let_def split: sum.splits prod.splits option.splits)
      then have "ms' = [] @ a # map clearMessage ms"
        using scanMessages_found by simp
      with True show ?thesis by (metis append_Nil empty_iff list.set(1))
    next
      case unmarked: False
      with Cons.prems False b bm obtain r where r: "scanMessages False ms = (r, None)" "ms' = a # r"
        by (auto simp: Let_def split: sum.splits prod.splits option.splits)
      from Cons.IH [OF r(1)] show ?thesis
      proof
        assume "(\<forall>m\<in>set ms. \<not> marked m) \<and> r = ms"
        with r unmarked show ?thesis by simp
      next
        assume "\<exists>later m earlier. ms = later @ m # earlier \<and> (\<forall>x\<in>set later. \<not> marked x) \<and> marked m \<and>
            r = later @ m # map clearMessage earlier"
        then obtain later m earlier where d: "ms = later @ m # earlier" "\<forall>x\<in>set later. \<not> marked x"
          "marked m" "r = later @ m # map clearMessage earlier" by blast
        have "a # ms = (a # later) @ m # earlier" using d by simp
        moreover have "\<forall>x\<in>set (a # later). \<not> marked x" using d unmarked by simp
        moreover have "ms' = (a # later) @ m # map clearMessage earlier" using d r by simp
        ultimately show ?thesis using d(3) by blast
      qed
    qed
  qed
qed

lemma getMessages_shape:
  assumes "getMessages ms = Inr ms'"
  shows "((\<forall>m \<in> set ms. \<not> marked m) \<and> ms' = ms) \<or>
         (\<exists>earlier m later. ms = earlier @ m # later \<and> marked m \<and> (\<forall>x \<in> set later. \<not> marked x) \<and>
            ms' = map clearMessage earlier @ m # later)"
proof -
  from assms obtain r where r: "scanMessages False (rev ms) = (r, None)" "ms' = rev r"
    by (auto simp: getMessages_def split: sum.splits prod.splits option.splits)
  from scanMessages_not_found [OF r(1)] show ?thesis
  proof
    assume "(\<forall>m\<in>set (rev ms). \<not> marked m) \<and> r = rev ms"
    with r show ?thesis by simp
  next
    assume "\<exists>later m earlier. rev ms = later @ m # earlier \<and> (\<forall>x\<in>set later. \<not> marked x) \<and> marked m \<and>
            r = later @ m # map clearMessage earlier"
    then obtain later m earlier where d: "rev ms = later @ m # earlier" "\<forall>x\<in>set later. \<not> marked x"
      "marked m" "r = later @ m # map clearMessage earlier" by blast
    from d(1) have "ms = rev earlier @ m # rev later"
      by (metis rev_append rev.simps(2) rev_rev_ident append_Cons append_Nil append_assoc)
    moreover from d(4) r have "ms' = map clearMessage (rev earlier) @ m # rev later"
      by (simp add: rev_map)
    moreover have "\<forall>x \<in> set (rev later). \<not> marked x" using d(2) by simp
    ultimately show ?thesis using d(3) by blast
  qed
qed

lemma scanMessages_total:
  assumes "\<forall>m \<in> set ms. \<not> isSystem m \<longrightarrow> (\<exists>ps. contentOf m = Parts ps)"
  shows "\<exists>ms'. scanMessages found ms = (ms', None)"
  using assms
proof (induction ms arbitrary: found)
  case Nil
  then show ?case by simp
next
  case (Cons a ms)
  then have ih: "\<And>f. \<exists>ms'. scanMessages f ms = (ms', None)" by simp
  show ?case
  proof (cases "isSystem a")
    case True
    with ih [of found] show ?thesis by auto
  next
    case False
    with Cons.prems obtain ps where ps: "contentOf a = Parts ps" by auto
    define a' where "a' = (if found then removeCacheControl a else a)"
    have "\<exists>qs. contentOf a' = Parts qs"
      using ps by (auto simp: a'_def contentOf_removeCacheControl_Parts)
    then have h: "hasCacheControl a' = Inr (marked a')"
      using hasCacheControl_Parts by blast
    obtain r where "scanMessages (if marked a' then True else found) ms = (r, None)"
      using ih by blast
    with False h show ?thesis by (simp add: a'_def Let_def)
  qed
qed

subsection \<open>The failed step\<close>

lemma stateMessage_unmarked: "\<not> marked (stateMessage d st)"
  by (simp add: stateMessage_def marked_def)

lemma hasCacheControl_stateMessage: "hasCacheControl (stateMessage d st) = Inr False"
  by (simp add: stateMessage_def hasCacheControl_def)

lemma getMessages_snoc_stateMessage:
  "getMessages (ms @ [stateMessage d st]) =
     (case getMessages ms of Inl e \<Rightarrow> Inl e | Inr ms' \<Rightarrow> Inr (ms' @ [stateMessage d st]))"
proof -
  have "\<not> isSystem (stateMessage d st)" by (simp add: stateMessage_def)
  then show ?thesis
    by (simp add: getMessages_def hasCacheControl_stateMessage split: sum.splits prod.splits option.splits)
qed

lemma scanMessages_length: "scanMessages f ms = (ms', None) \<Longrightarrow> length ms' = length ms"
  by (induction ms arbitrary: f ms') (auto simp: Let_def split: sum.splits prod.splits option.splits if_splits)

lemma getMessages_length: "getMessages ms = Inr ms' \<Longrightarrow> length ms' = length ms"
  by (auto simp: getMessages_def split: sum.splits prod.splits option.splits dest: scanMessages_length)

lemma step_model_failure:
  assumes "messages \<noteq> []" and "getMessages messages = Inr visible"
    and "generateAction (visible @ [stateMessage (describe st prev) st]) = Inl e"
  shows "step messages (Some prev) (Inr st) describe generateAction continue = (visible, Inl e)"
proof -
  have "length visible = length messages" using assms(2) by (rule getMessages_length)
  with assms(1) have "visible \<noteq> []" by auto
  then have "removeLastMessage (visible @ [stateMessage (describe st prev) st]) = visible"
    by (cases visible) (simp_all add: removeLastMessage_def)
  with assms(2,3) show ?thesis
    by (simp add: step_def addCurrentStateMessage_def getMessages_snoc_stateMessage)
qed

lemma getMessages_fixed:
  assumes "getMessages ms = Inr ms'" and "length (filter marked ms) \<le> 1"
  shows "ms' = ms"
proof -
  from getMessages_shape [OF assms(1)] show ?thesis
  proof
    assume "(\<forall>m\<in>set ms. \<not> marked m) \<and> ms' = ms"
    then show ?thesis by simp
  next
    assume "\<exists>earlier m later. ms = earlier @ m # later \<and> marked m \<and> (\<forall>x\<in>set later. \<not> marked x) \<and>
        ms' = map clearMessage earlier @ m # later"
    then obtain earlier m later where d: "ms = earlier @ m # later" "marked m"
      "ms' = map clearMessage earlier @ m # later" by blast
    with assms(2) have "filter marked earlier = []" by simp
    then have "\<forall>x \<in> set earlier. \<not> marked x" by (simp add: filter_empty_conv)
    then have "map clearMessage earlier = earlier"
      by (simp add: map_idI clearMessage_def removeCacheControl_unmarked)
    with d show ?thesis by simp
  qed
qed

lemma getMessages_at_most_one:
  assumes "getMessages ms = Inr ms'"
  shows "length (filter marked ms') \<le> 1"
proof -
  have clr: "filter marked (map clearMessage xs) = []" for xs
    by (simp add: filter_empty_conv not_marked_clearMessage)
  from getMessages_shape [OF assms] show ?thesis
  proof
    assume "(\<forall>m\<in>set ms. \<not> marked m) \<and> ms' = ms"
    then have "filter marked ms' = []" by (simp add: filter_empty_conv)
    then show ?thesis by simp
  next
    assume "\<exists>earlier m later. ms = earlier @ m # later \<and> marked m \<and> (\<forall>x\<in>set later. \<not> marked x) \<and>
        ms' = map clearMessage earlier @ m # later"
    then obtain earlier m later where d: "marked m" "\<forall>x\<in>set later. \<not> marked x"
      "ms' = map clearMessage earlier @ m # later" by blast
    from d(2) have "filter marked later = []" by (simp add: filter_empty_conv)
    with d clr show ?thesis by simp
  qed
qed

lemma last_marked_unique:
  assumes "earlier @ m # later = earlier' @ m' # later'"
    and "marked m" "\<forall>x \<in> set later. \<not> marked x"
    and "marked m'" "\<forall>x \<in> set later'. \<not> marked x"
  shows "earlier = earlier' \<and> m = m' \<and> later = later'"
proof -
  have "dropWhile (\<lambda>x. \<not> marked x) (rev (earlier @ m # later)) = m # rev earlier"
    using assms(2,3) by (simp add: dropWhile_append3)
  moreover have "dropWhile (\<lambda>x. \<not> marked x) (rev (earlier' @ m' # later')) = m' # rev earlier'"
    using assms(4,5) by (simp add: dropWhile_append3)
  ultimately have "m # rev earlier = m' # rev earlier'" using assms(1) by simp
  then have "m = m'" "earlier = earlier'" by simp_all
  with assms(1) show ?thesis by simp
qed

lemma getMessages_keeps_latest:
  assumes "getMessages ms = Inr ms'" and "ms = earlier @ m # later"
    and "marked m" and "\<forall>x \<in> set later. \<not> marked x"
  shows "ms' = map clearMessage earlier @ m # later"
proof -
  from getMessages_shape [OF assms(1)] show ?thesis
  proof
    assume "(\<forall>m\<in>set ms. \<not> marked m) \<and> ms' = ms"
    with assms(2,3) show ?thesis by simp
  next
    assume "\<exists>earlier m later. ms = earlier @ m # later \<and> marked m \<and> (\<forall>x\<in>set later. \<not> marked x) \<and>
        ms' = map clearMessage earlier @ m # later"
    then obtain earlier' m' later' where d: "ms = earlier' @ m' # later'" "marked m'"
      "\<forall>x\<in>set later'. \<not> marked x" "ms' = map clearMessage earlier' @ m' # later'" by blast
    from d(1) assms(2) have "earlier @ m # later = earlier' @ m' # later'" by simp
    from last_marked_unique [OF this assms(3,4) d(2,3)] d(4) show ?thesis by simp
  qed
qed

lemma getMessages_total:
  assumes "\<forall>m \<in> set ms. \<not> isSystem m \<longrightarrow> (\<exists>ps. contentOf m = Parts ps)"
  shows "\<exists>ms'. getMessages ms = Inr ms'"
proof -
  from assms have "\<forall>m \<in> set (rev ms). \<not> isSystem m \<longrightarrow> (\<exists>ps. contentOf m = Parts ps)" by simp
  then obtain r where "scanMessages False (rev ms) = (r, None)"
    using scanMessages_total by blast
  then show ?thesis by (simp add: getMessages_def)
qed

text \<open>
  Without a previous result the step appends nothing, yet a failed model call removes the
  last message all the same: of a log of system prompt and task only the prompt is left.
\<close>

lemma step_failure_without_previous_result:
  "step [SystemMessage ''system prompt'', UserMessage (Parts [TextContent ''task'' None]) False]
     None (Inr (snapshot [])) describeNothing modelFails stop =
   ([SystemMessage ''system prompt''], Inl (Error ''model call failed''))"
  by (simp add: step_def getMessages_def hasCacheControl_def removeLastMessage_def modelFails_def)

subsection \<open>The step cap\<close>

lemma run_loop_never_done:
  assumes "neverDone stepFn" and "stepNo \<le> maxSteps"
  shows "\<exists>s' r. run_loop stepFn maxSteps stepNo res False s = (s', maxSteps, r, None)"
  using assms(2)
proof (induction "maxSteps - stepNo" arbitrary: stepNo res s)
  case 0
  then have "stepNo = maxSteps" by simp
  then show ?case by (simp add: run_loop.simps [of _ _ maxSteps])
next
  case (Suc k)
  then have lt: "stepNo < maxSteps" by simp
  from assms(1) obtain s' r summary where st: "stepFn stepNo res s = (s', Inr (r, summary))" "\<not> doneOf r"
    unfolding neverDone_def by blast
  from Suc(2) lt have "k = maxSteps - Suc stepNo" "Suc stepNo \<le> maxSteps" by simp_all
  from Suc(1) [OF this, of "Some r" s']
  obtain s'' r' where "run_loop stepFn maxSteps (Suc stepNo) (Some r) False s' = (s'', maxSteps, r', None)"
    by blast
  with lt st show ?case by (simp add: run_loop.simps [of _ _ stepNo])
qed

lemma stream_loop_never_done:
  assumes "neverDone stepFn" and "stepNo \<le> maxSteps"
  shows "\<exists>s' steps. stream_loop stepFn maxSteps None elapsed stepNo res False s out =
           (s', out @ steps @ [ErrorChunk (''Maximum number of steps reached: '' @ decimal maxSteps)]) \<and>
           length steps = maxSteps - stepNo \<and> (\<forall>c \<in> set steps. chunkType c = ''step'')"
  using assms(2)
proof (induction "maxSteps - stepNo" arbitrary: stepNo res s out)
  case 0
  then have "stepNo = maxSteps" by simp
  then show ?case by (simp add: stream_loop.simps [of _ _ _ _ maxSteps])
next
  case (Suc k)
  then have lt: "stepNo < maxSteps" by simp
  from assms(1) obtain s' r summary where st: "stepFn stepNo res s = (s', Inr (r, summary))" "\<not> doneOf r"
    unfolding neverDone_def by blast
  from Suc(2) lt have k: "k = maxSteps - Suc stepNo" "Suc stepNo \<le> maxSteps" by simp_all
  from Suc(1) [OF this, of "Some r" s' "out @ [StepChunk r summary]"]
  obtain s'' steps where rec:
    "stream_loop stepFn maxSteps None elapsed (Suc stepNo) (Some r) False s' (out @ [StepChunk r summary]) =
       (s'', (out @ [StepChunk r summary]) @ steps @
          [ErrorChunk (''Maximum number of steps reached: '' @ decimal maxSteps)])"
    "length steps = maxSteps - Suc stepNo" "\<forall>c \<in> set steps. chunkType c = ''step''"
    by blast
  have "stream_loop stepFn maxSteps None elapsed stepNo res False s out =
      (s'', out @ (StepChunk r summary # steps) @
          [ErrorChunk (''Maximum number of steps reached: '' @ decimal maxSteps)])"
    using lt st rec(1) by (simp add: stream_loop.simps [of _ _ _ _ stepNo] timedOut_def)
  moreover have "length (StepChunk r summary # steps) = maxSteps - stepNo"
    using rec(2) lt by simp
  moreover have "\<forall>c \<in> set (StepChunk r summary # steps). chunkType c = ''step''"
    using rec(3) by simp
  ultimately show ?case by blast
qed

subsection \<open>Evaluation on concrete inputs, and two-element lists\<close>

lemmas resolver_eval = filterElements_def filterOverlappingElements_def sortElementsByPosition_def
  sort_by_def compareAreaWeight_def compareTop_def compareLeft_def rectArea_def filterStep_def
  calculateIou_def isFullyContained_def rowsOf_def ROW_THRESHOLD_def element_def Let_def

lemma rows_two_apart:
  assumes "top' (rect (h a)) = 0" and "top' (rect (h b)) = 30"
  shows "rowsOf h (sort_by (compareTop h) [a, b]) = [[a], [b]]"
    and "rowsOf h (sort_by (compareTop h) [b, a]) = [[a], [b]]"
  using assms by (simp_all add: rowsOf_def sort_by_def compareTop_def ROW_THRESHOLD_def)

lemma rows_two_close:
  assumes "top' (rect (h a)) = 0" and "top' (rect (h b)) = 15"
  shows "rowsOf h (sort_by (compareTop h) [a, b]) = [[a, b]]"
    and "rowsOf h (sort_by (compareTop h) [b, a]) = [[a, b]]"
  using assms by (simp_all add: rowsOf_def sort_by_def compareTop_def ROW_THRESHOLD_def)

lemma position_two_close:
  assumes "top' (rect (h a)) = 0" and "top' (rect (h b)) = 15"
    and "left (rect (h a)) < left (rect (h b))"
  shows "snd (sortElementsByPosition h [a, b]) = [a, b]"
    and "snd (sortElementsByPosition h [b, a]) = [a, b]"
  using assms
  by (simp_all add: sortElementsByPosition_eq Let_def rows_two_close)
     (simp_all add: sort_by_def compareLeft_def)

lemma sorted_rows:
  "mset (sort_by (compareLeft h) row) = mset row \<and>
   sorted (map (\<lambda>r. left (rect (h r))) (sort_by (compareLeft h) row))"
  by (simp add: sorted_left_sort_by) (simp add: sort_by_compareLeft)

lemma neverDone_idleStep: "neverDone idleStep"
  by (simp add: neverDone_def idleStep_def doneOf_def scrolled_def)

lemmas stream_unfold = stream_loop.simps [of _ _ _ _ 0] stream_loop.simps [of _ _ _ _ "Suc 0"]
        stream_loop.simps [of _ _ _ _ "Suc (Suc 0)"] stream_loop.simps [of _ _ _ _ "Suc (Suc (Suc 0))"]
        stream_loop.simps [of _ _ _ _ "Suc (Suc (Suc (Suc 0)))"]
        stream_loop.simps [of _ _ _ _ "Suc (Suc (Suc (Suc (Suc 0))))"]

lemmas run_unfold = run_loop.simps [of _ _ 0] run_loop.simps [of _ _ "Suc 0"]
        run_loop.simps [of _ _ "Suc (Suc 0)"] run_loop.simps [of _ _ "Suc (Suc (Suc 0))"]
        run_loop.simps [of _ _ "Suc (Suc (Suc (Suc 0)))"]
        run_loop.simps [of _ _ "Suc (Suc (Suc (Suc (Suc 0))))"]

subsection \<open>Resolving twice\<close>

lemma sorted_pair_keys:
  fixes f :: "'a \<Rightarrow> 'b::linorder" and g :: "'a \<Rightarrow> 'c::linorder"
  assumes "sorted (map f xs)" and "\<And>k. sorted (map g (filter (\<lambda>x. f x = k) xs))"
  shows "sorted (map (\<lambda>x. (f x, g x)) xs)"
  using assms
proof (induction xs)
  case Nil
  then show ?case by simp
next
  case (Cons x xs)
  have tail: "sorted (map (\<lambda>x. (f x, g x)) xs)"
  proof (rule Cons.IH)
    show "sorted (map f xs)" using Cons.prems(1) by simp
    fix k
    from Cons.prems(2) [of k] show "sorted (map g (filter (\<lambda>x. f x = k) xs))"
      by (cases "f x = k") simp_all
  qed
  have "(f x, g x) \<le> (f y, g y)" if y: "y \<in> set xs" for y
  proof (cases "f x = f y")
    case True
    from Cons.prems(2) [of "f x"] have "sorted (map g (x # filter (\<lambda>z. f z = f x) xs))" by simp
    moreover have "y \<in> set (filter (\<lambda>z. f z = f x) xs)" using y True by simp
    ultimately have "g x \<le> g y" by auto
    with True show ?thesis by (simp add: less_eq_prod_def)
  next
    case False
    moreover from Cons.prems(1) y have "f x \<le> f y" by auto
    ultimately show ?thesis by (auto simp: less_eq_prod_def)
  qed
  with tail show ?case by auto
qed

lemma sort_key_twice:
  fixes f :: "'a \<Rightarrow> 'b::linorder" and g :: "'a \<Rightarrow> 'c::linorder"
  shows "sort_key f (sort_key g xs) = sort_key (\<lambda>x. (f x, g x)) xs"
proof (rule sym, rule properties_for_sort_key)
  show "mset (sort_key f (sort_key g xs)) = mset xs" by simp
next
  fix k
  have "filter (\<lambda>x. (f k, g k) = (f x, g x)) (sort_key f (sort_key g xs)) =
        filter (\<lambda>x. g k = g x) (filter (\<lambda>x. f x = f k) (sort_key f (sort_key g xs)))"
    by (auto intro: filter_cong)
  also have "\<dots> = filter (\<lambda>x. g k = g x) (filter (\<lambda>x. f x = f k) (sort_key g xs))"
    by (simp only: sort_key_stable)
  also have "\<dots> = filter (\<lambda>x. f x = f k) (filter (\<lambda>x. g x = g k) (sort_key g xs))"
    by (auto intro: filter_cong)
  also have "\<dots> = filter (\<lambda>x. f x = f k) (filter (\<lambda>x. g x = g k) xs)"
    by (simp only: sort_key_stable)
  also have "\<dots> = filter (\<lambda>x. (f k, g k) = (f x, g x)) xs"
    by (auto intro: filter_cong)
  finally show "filter (\<lambda>x. (f k, g k) = (f x, g x)) (sort_key f (sort_key g xs)) =
        filter (\<lambda>x. (f k, g k) = (f x, g x)) xs" .
next
  show "sorted (map (\<lambda>x. (f x, g x)) (sort_key f (sort_key g xs)))"
  proof (rule sorted_pair_keys)
    show "sorted (map f (sort_key f (sort_key g xs)))" by (rule sorted_sort_key)
    fix k
    have "filter (\<lambda>x. f x = k) (sort_key f (sort_key g xs)) = sort_key g (filter (\<lambda>x. f x = k) xs)"
      by (simp only: sort_key_stable filter_sort)
    then show "sorted (map g (filter (\<lambda>x. f x = k) (sort_key f (sort_key g xs))))"
      by (simp only: sorted_sort_key)
  qed
qed

lemma sorted_same_mset:
  fixes xs ys :: "'a::linorder list"
  assumes "sorted xs" "sorted ys" "mset xs = mset ys"
  shows "xs = ys"
proof -
  have "sort ys = xs" using assms by (intro properties_for_sort) simp_all
  moreover have "sort ys = ys" using assms(2) by (simp add: sort_key_id_if_sorted)
  ultimately show ?thesis by simp
qed

lemma sorted_hd_le: "sorted (map f xs) \<Longrightarrow> u \<in> set xs \<Longrightarrow> f (hd xs) \<le> f u"
  by (cases xs) auto

lemma sorted_le_last: "sorted (map f xs) \<Longrightarrow> u \<in> set xs \<Longrightarrow> f u \<le> f (last xs)"
  by (induction xs) (auto split: if_splits)

lemma strict_gaps:
  assumes "\<forall>row \<in> set rows. row \<noteq> []" and "successively (rowGap h) rows"
    and "sorted (map (topKey h) (concat rows))"
  shows "successively (\<lambda>r1 r2. topKey h (last r1) < topKey h (hd r2)) rows"
  using assms
proof (induction rows rule: induct_list012)
  case (3 r1 r2 rest)
  then have "topKey h (last r1) \<le> topKey h (hd r2)"
    by (auto simp: sorted_append)
  moreover from 3 have "\<not> \<bar>topKey h (hd r2) - topKey h (last r1)\<bar> \<le> 20"
    by (simp add: rowGap_def sameRow_def topKey_def ROW_THRESHOLD_def)
  ultimately have "topKey h (last r1) < topKey h (hd r2)" by linarith
  moreover have "successively (\<lambda>r1 r2. topKey h (last r1) < topKey h (hd r2)) (r2 # rest)"
    using 3 by (auto simp: sorted_append)
  ultimately show ?case by simp
qed simp_all

lemma rowsApart_rowsOf:
  assumes "sorted (map (topKey h) ys)"
  shows "rowsApart h (rowsOf h ys)"
proof -
  have inv: "rowsInv h (rowsOf h ys)" by (rule rowsInv_rowsOf)
  have c: "concat (rowsOf h ys) = ys" by (rule concat_rowsOf)
  from inv have ne: "\<forall>row \<in> set (rowsOf h ys). row \<noteq> []" by (simp add: rowsInv_def)
  moreover from inv have "successively (rowGap h) (rowsOf h ys)" by (simp add: rowsInv_def)
  with ne have "successively (\<lambda>r1 r2. topKey h (last r1) < topKey h (hd r2)) (rowsOf h ys)"
    using assms c by (intro strict_gaps) simp_all
  ultimately show ?thesis using assms c by (simp add: rowsApart_def)
qed

lemma rowsApart_tl: "rowsApart h (p # rows) \<Longrightarrow> rowsApart h rows"
  by (cases rows) (auto simp: rowsApart_def sorted_append)

lemma before_row_below:
  assumes "rowsApart h (pre @ row # post)" and "r \<in> set row" and "u \<in> set (concat pre)"
  shows "topKey h u < topKey h r"
  using assms
proof (induction pre)
  case Nil
  then show ?case by simp
next
  case (Cons p pre)
  from Cons.prems(1) have tl: "rowsApart h (pre @ row # post)"
    using rowsApart_tl by fastforce
  show ?case
  proof (cases "u \<in> set p")
    case False
    with Cons.prems(3) have "u \<in> set (concat pre)" by simp
    with tl Cons.prems(2) show ?thesis by (rule Cons.IH)
  next
    case True
    obtain nxt rest where nr: "pre @ row # post = nxt # rest" by (cases pre) auto
    from Cons.prems(1) have sp: "sorted (map (topKey h) p)"
      by (simp add: rowsApart_def sorted_append)
    from sp True have 1: "topKey h u \<le> topKey h (last p)" by (rule sorted_le_last)
    from Cons.prems(1) nr have 2: "topKey h (last p) < topKey h (hd nxt)"
      by (simp add: rowsApart_def)
    from tl nr have ne: "nxt \<noteq> []" and srt: "sorted (map (topKey h) (concat (nxt # rest)))"
      by (simp_all add: rowsApart_def)
    have "r \<in> set (concat (pre @ row # post))" using Cons.prems(2) by simp
    then have "r \<in> set (concat (nxt # rest))" by (simp only: nr)
    with srt have "topKey h (hd (concat (nxt # rest))) \<le> topKey h r" by (rule sorted_hd_le)
    with ne have 3: "topKey h (hd nxt) \<le> topKey h r" by simp
    from 1 2 3 show ?thesis by simp
  qed
qed

lemma row_not_above:
  assumes "rowsApart h (pre @ row # post)" and "r \<in> set row" and "row' \<in> set (row # post)"
  shows "topKey h r \<le> topKey h (last row')"
proof -
  from assms(1) have srt: "sorted (map (topKey h) (row @ concat post))"
    and ne: "\<forall>q \<in> set (row # post). q \<noteq> []"
    by (simp_all add: rowsApart_def sorted_append)
  show ?thesis
  proof (cases "row' = row")
    case True
    from srt have "sorted (map (topKey h) row)" by (simp add: sorted_append)
    with assms(2) True show ?thesis by (simp add: sorted_le_last)
  next
    case False
    with assms(3) have in_post: "row' \<in> set post" by simp
    with ne have "last row' \<in> set row'" by simp
    with in_post have "last row' \<in> set (concat post)" by auto
    with srt assms(2) show ?thesis by (auto simp: sorted_append)
  qed
qed

lemma rowNo_of_row:
  assumes "rowsApart h (pre @ row # post)" and "r \<in> set row"
  shows "rowNo h (pre @ row # post) (topKey h r) = length pre"
proof -
  have ne: "\<forall>q \<in> set pre. q \<noteq> []" using assms(1) by (simp add: rowsApart_def)
  have "topKey h (last q) < topKey h r" if "q \<in> set pre" for q
  proof -
    from that ne have "last q \<in> set q" by simp
    with that have "last q \<in> set (concat pre)" by auto
    with assms show ?thesis by (rule before_row_below)
  qed
  then have 1: "filter (\<lambda>q. topKey h (last q) < topKey h r) pre = pre" by simp
  have "\<not> topKey h (last q) < topKey h r" if "q \<in> set (row # post)" for q
    using row_not_above [OF assms that] by simp
  then have 2: "filter (\<lambda>q. topKey h (last q) < topKey h r) (row # post) = []"
    by (auto simp: filter_empty_conv)
  from 1 2 show ?thesis by (simp add: rowNo_def)
qed

lemma sorted_rowLeftKey:
  assumes "rowsApart h (pre @ suf)"
  shows "sorted (map (rowLeftKey h (pre @ suf)) (concat (map (sort_key (leftKey h)) suf)))"
  using assms
proof (induction suf arbitrary: pre)
  case Nil
  then show ?case by simp
next
  case (Cons row post)
  let ?rows = "pre @ row # post"
  have rows: "?rows = (pre @ [row]) @ post" by simp
  from Cons.prems have "rowsApart h ((pre @ [row]) @ post)" by simp
  then have tail: "sorted (map (rowLeftKey h ?rows) (concat (map (sort_key (leftKey h)) post)))"
    using Cons.IH [of "pre @ [row]"] by simp
  have here: "rowLeftKey h ?rows a = (length pre, leftKey h a)" if "a \<in> set row" for a
    using rowNo_of_row [OF Cons.prems that] by (simp add: rowLeftKey_def)
  have eq: "map (rowLeftKey h ?rows) (sort_key (leftKey h) row) =
        map (\<lambda>a. (length pre, leftKey h a)) (sort_key (leftKey h) row)"
    by (rule map_cong) (simp_all add: here)
  have "sorted (map (\<lambda>a. (length pre, leftKey h a)) (sort_key (leftKey h) row))"
    using sorted_sort_key [of "leftKey h" row] by (simp add: sorted_map less_eq_prod_def)
  then have first: "sorted (map (rowLeftKey h ?rows) (sort_key (leftKey h) row))"
    by (simp only: eq)
  have later: "length pre < fst (rowLeftKey h ?rows b)" if "b \<in> set (concat post)" for b
  proof -
    from that obtain q where "q \<in> set post" "b \<in> set q" by auto
    then obtain p1 p2 where post: "post = p1 @ q # p2" by (auto simp: in_set_conv_decomp)
    from Cons.prems have "rowsApart h ((pre @ row # p1) @ q # p2)" by (simp add: post)
    from rowNo_of_row [OF this \<open>b \<in> set q\<close>]
    show ?thesis by (simp add: rowLeftKey_def post)
  qed
  have "rowLeftKey h ?rows a \<le> rowLeftKey h ?rows b"
    if "a \<in> set row" "b \<in> set (concat post)" for a b
    using here [OF that(1)] later [OF that(2)] by (cases "rowLeftKey h ?rows b") (simp add: less_eq_prod_def)
  with first tail show ?case
    by (auto simp: sorted_append)
qed

lemma filter_concat_sorted_rows:
  "filter (\<lambda>r. (g r, leftKey h r) = (a, b)) (concat (map (sort_key (leftKey h)) rows)) =
   filter (\<lambda>r. (g r, leftKey h r) = (a, b)) (concat rows)"
proof (induction rows)
  case Nil
  then show ?case by simp
next
  case (Cons row rows)
  have "filter (\<lambda>r. (g r, leftKey h r) = (a, b)) (sort_key (leftKey h) row) =
        filter (\<lambda>r. g r = a) (filter (\<lambda>r. leftKey h r = b) (sort_key (leftKey h) row))"
    by (auto intro: filter_cong)
  also have "\<dots> = filter (\<lambda>r. g r = a) (filter (\<lambda>r. leftKey h r = b) row)"
    by (simp only: sort_key_stable)
  also have "\<dots> = filter (\<lambda>r. (g r, leftKey h r) = (a, b)) row"
    by (auto intro: filter_cong)
  finally show ?case using Cons by simp
qed

lemma position_as_sort:
  assumes "sorted (map (topKey h) ys)"
  shows "concat (map (sort_key (leftKey h)) (rowsOf h ys)) = sort_key (rowLeftKey h (rowsOf h ys)) ys"
proof (rule sym, rule properties_for_sort_key)
  show "mset (concat (map (sort_key (leftKey h)) (rowsOf h ys))) = mset ys"
    by (simp add: mset_concat_map_sort concat_rowsOf)
next
  fix k
  have "filter (\<lambda>r. (rowNo h (rowsOf h ys) (topKey h r), leftKey h r) =
                   (rowNo h (rowsOf h ys) (topKey h k), leftKey h k))
          (concat (map (sort_key (leftKey h)) (rowsOf h ys))) =
        filter (\<lambda>r. (rowNo h (rowsOf h ys) (topKey h r), leftKey h r) =
                   (rowNo h (rowsOf h ys) (topKey h k), leftKey h k)) (concat (rowsOf h ys))"
    by (rule filter_concat_sorted_rows)
  then show "filter (\<lambda>r. rowLeftKey h (rowsOf h ys) k = rowLeftKey h (rowsOf h ys) r)
          (concat (map (sort_key (leftKey h)) (rowsOf h ys))) =
        filter (\<lambda>r. rowLeftKey h (rowsOf h ys) k = rowLeftKey h (rowsOf h ys) r) ys"
    by (simp add: rowLeftKey_def concat_rowsOf eq_commute)
next
  from assms have "rowsApart h ([] @ rowsOf h ys)" by (simp add: rowsApart_rowsOf)
  from sorted_rowLeftKey [OF this]
  show "sorted (map (rowLeftKey h (rowsOf h ys)) (concat (map (sort_key (leftKey h)) (rowsOf h ys))))"
    by simp
qed

lemma groupRows_same_tops:
  assumes "map (topKey h) es = map (topKey h) es'"
    and "map (topKey h) cur = map (topKey h) cur'"
    and "map (map (topKey h)) rows = map (map (topKey h)) rows'"
  shows "map (map (topKey h)) (fst (groupRows h rows cur es)) =
           map (map (topKey h)) (fst (groupRows h rows' cur' es')) \<and>
         map (topKey h) (snd (groupRows h rows cur es)) =
           map (topKey h) (snd (groupRows h rows' cur' es'))"
  using assms
proof (induction es arbitrary: es' cur cur' rows rows')
  case Nil
  then show ?case by simp
next
  case (Cons e es)
  from Cons.prems(1) obtain e' es1 where es': "es' = e' # es1" and e: "topKey h e = topKey h e'"
    and rest: "map (topKey h) es = map (topKey h) es1" by auto
  from Cons.prems(2) have emp: "cur = [] \<longleftrightarrow> cur' = []" by (metis map_is_Nil_conv)
  show ?case
  proof (cases "cur = []")
    case True
    with emp have c': "cur' = []" by simp
    have "map (topKey h) [e] = map (topKey h) [e']" using e by simp
    from Cons.IH [OF rest this Cons.prems(3)] True c' es' show ?thesis by simp
  next
    case False
    with emp have ne': "cur' \<noteq> []" by simp
    from Cons.prems(2) False ne' have l: "topKey h (last cur) = topKey h (last cur')"
      by (metis last_map)
    show ?thesis
    proof (cases "\<bar>top' (rect (h e)) - top' (rect (h (last cur)))\<bar> \<le> ROW_THRESHOLD")
      case True
      with e l have t': "\<bar>top' (rect (h e')) - top' (rect (h (last cur')))\<bar> \<le> ROW_THRESHOLD"
        by (simp add: topKey_def)
      have "map (topKey h) (cur @ [e]) = map (topKey h) (cur' @ [e'])"
        using Cons.prems(2) e by simp
      from Cons.IH [OF rest this Cons.prems(3)] True t' False ne' es' show ?thesis by simp
    next
      case far: False
      with e l have t': "\<not> \<bar>top' (rect (h e')) - top' (rect (h (last cur')))\<bar> \<le> ROW_THRESHOLD"
        by (simp add: topKey_def)
      have 1: "map (topKey h) [e] = map (topKey h) [e']" using e by simp
      have 2: "map (map (topKey h)) (rows @ [cur]) = map (map (topKey h)) (rows' @ [cur'])"
        using Cons.prems(2,3) by simp
      from Cons.IH [OF rest 1 2] far t' False ne' es' show ?thesis by simp
    qed
  qed
qed

lemma rowsOf_same_tops:
  assumes "map (topKey h) ys = map (topKey h) ys'"
  shows "map (map (topKey h)) (rowsOf h ys) = map (map (topKey h)) (rowsOf h ys')"
proof -
  obtain rows cur where g: "groupRows h [] [] ys = (rows, cur)" by force
  obtain rows' cur' where g': "groupRows h [] [] ys' = (rows', cur')" by force
  have "map (map (topKey h)) (fst (groupRows h [] [] ys)) =
           map (map (topKey h)) (fst (groupRows h [] [] ys')) \<and>
         map (topKey h) (snd (groupRows h [] [] ys)) =
           map (topKey h) (snd (groupRows h [] [] ys'))"
    using assms by (intro groupRows_same_tops) simp_all
  with g g' have r: "map (map (topKey h)) rows = map (map (topKey h)) rows'"
    and c: "map (topKey h) cur = map (topKey h) cur'" by simp_all
  from c have "cur = [] \<longleftrightarrow> cur' = []" by (metis map_is_Nil_conv)
  with g g' r c show ?thesis
    by (auto simp: rowsOf_def)
qed

lemma rowNo_tops:
  assumes "\<forall>row \<in> set rows. row \<noteq> []"
  shows "rowNo h rows t = length (filter (\<lambda>ts. last ts < t) (map (map (topKey h)) rows))"
proof -
  have "filter (\<lambda>ts. last ts < t) (map (map (topKey h)) rows) =
        map (map (topKey h)) (filter (\<lambda>row. last (map (topKey h) row) < t) rows)"
    by (simp add: filter_map comp_def)
  moreover have "filter (\<lambda>row. last (map (topKey h) row) < t) rows =
        filter (\<lambda>row. topKey h (last row) < t) rows"
    using assms by (intro filter_cong) (simp_all add: last_map)
  ultimately show ?thesis by (simp add: rowNo_def)
qed

lemma rowNo_same_tops:
  assumes "map (topKey h) ys = map (topKey h) ys'"
  shows "rowNo h (rowsOf h ys) = rowNo h (rowsOf h ys')"
proof
  fix t
  have "\<forall>row \<in> set (rowsOf h ys). row \<noteq> []" "\<forall>row \<in> set (rowsOf h ys'). row \<noteq> []"
    using rowsInv_rowsOf [of h ys] rowsInv_rowsOf [of h ys'] by (simp_all add: rowsInv_def)
  then show "rowNo h (rowsOf h ys) t = rowNo h (rowsOf h ys') t"
    using rowsOf_same_tops [OF assms] by (simp add: rowNo_tops)
qed

lemma sameShape_assignIndex: "sameShape h (assignIndex h i rs)"
proof -
  have "rect (assignIndex h i rs r) = rect (h r) \<and> weight (assignIndex h i rs r) = weight (h r) \<and>
        zIndex (assignIndex h i rs r) = zIndex (h r)" for r
  proof -
    obtain n where "assignIndex h i rs r = (h r)\<lparr>index := n\<rparr>"
      using assignIndex_frame by blast
    then show ?thesis by simp
  qed
  then show ?thesis by (simp add: sameShape_def)
qed

lemma sameShape_comparators:
  assumes "sameShape h h'"
  shows "compareAreaWeight h' = compareAreaWeight h"
    and "compareTop h' = compareTop h" and "compareLeft h' = compareLeft h"
  using assms
  by (simp_all add: sameShape_def compareAreaWeight_def compareTop_def compareLeft_def rectArea_def
      fun_eq_iff Let_def)

lemma sameShape_scanFiltered:
  assumes "sameShape h h'"
  shows "scanFiltered h' thr cur acc = scanFiltered h thr cur acc"
  using assms by (induction acc) (simp_all add: sameShape_def rectArea_def)

lemma sameShape_filterOverlappingElements:
  assumes "sameShape h h'"
  shows "filterOverlappingElements h' xs thr = filterOverlappingElements h xs thr"
proof -
  have "filterStep h' thr = filterStep h thr"
    by (simp add: fun_eq_iff filterStep_def sameShape_scanFiltered [OF assms])
  then show ?thesis
    by (simp add: filterOverlappingElements_def sameShape_comparators [OF assms])
qed

lemma sameShape_groupRows:
  assumes "sameShape h h'"
  shows "groupRows h' rows cur es = groupRows h rows cur es"
  using assms by (induction es arbitrary: rows cur) (simp_all add: sameShape_def)

lemma sameShape_position:
  assumes "sameShape h h'"
  shows "snd (sortElementsByPosition h' ys) = snd (sortElementsByPosition h ys)"
  by (simp add: sortElementsByPosition_eq Let_def rowsOf_def sameShape_groupRows [OF assms]
      sameShape_comparators [OF assms])

lemma assignIndex_cong:
  assumes "\<forall>r. \<exists>n. h' r = (h r)\<lparr>index := n\<rparr>" and "\<forall>r. r \<notin> set rs \<longrightarrow> h' r = h r"
  shows "assignIndex h' i rs = assignIndex h i rs"
  using assms
proof (induction rs arbitrary: h h' i)
  case Nil
  then show ?case by (simp add: fun_eq_iff)
next
  case (Cons a rs)
  define g where "g = h(a := (h a)\<lparr>index := int i\<rparr>)"
  define g' where "g' = h'(a := (h' a)\<lparr>index := int i\<rparr>)"
  obtain n where n: "h' a = (h a)\<lparr>index := n\<rparr>" using Cons.prems(1) by blast
  then have same: "g' a = g a" by (simp add: g_def g'_def)
  have 1: "\<forall>r. \<exists>n. g' r = (g r)\<lparr>index := n\<rparr>"
  proof
    fix r
    show "\<exists>n. g' r = (g r)\<lparr>index := n\<rparr>"
    proof (cases "r = a")
      case True
      have "g a = (g a)\<lparr>index := index (g a)\<rparr>" by simp
      with same True show ?thesis by metis
    next
      case False
      with Cons.prems(1) show ?thesis by (simp add: g_def g'_def)
    qed
  qed
  have 2: "\<forall>r. r \<notin> set rs \<longrightarrow> g' r = g r"
  proof (intro allI impI)
    fix r assume "r \<notin> set rs"
    show "g' r = g r"
    proof (cases "r = a")
      case True
      with same show ?thesis by simp
    next
      case False
      with \<open>r \<notin> set rs\<close> Cons.prems(2) show ?thesis by (simp add: g_def g'_def)
    qed
  qed
  have "assignIndex g' (Suc i) rs = assignIndex g (Suc i) rs" using 1 2 by (rule Cons.IH)
  then show ?case by (simp add: g_def g'_def)
qed

lemma assignIndex_again: "assignIndex (assignIndex h i rs) i rs = assignIndex h i rs"
  by (rule assignIndex_cong) (simp_all add: assignIndex_frame assignIndex_other)

lemma subseq_scanFiltered: "subseq (snd (scanFiltered h thr cur acc)) acc"
  by (induction acc) (auto split: prod.splits)

lemma subseq_filterStep: "subseq (filterStep h thr acc cur) (acc @ [cur])"
proof -
  obtain b acc' where s: "scanFiltered h thr cur acc = (b, acc')" by force
  then have "subseq acc' acc" using subseq_scanFiltered [of h thr cur acc] by simp
  then have "subseq (acc' @ [cur]) (acc @ [cur])" "subseq acc' (acc @ [cur])"
    by (simp_all add: list_emb_append_mono subseq_rev_drop_many)
  with s show ?thesis by (simp add: filterStep_def)
qed

lemma subseq_foldl_filterStep:
  "subseq acc ys \<Longrightarrow> subseq (foldl (filterStep h thr) acc xs) (ys @ xs)"
proof (induction xs arbitrary: acc ys)
  case Nil
  then show ?case by simp
next
  case (Cons a xs)
  have "subseq (filterStep h thr acc a) (acc @ [a])" by (rule subseq_filterStep)
  moreover from Cons.prems have "subseq (acc @ [a]) (ys @ [a])"
    by (simp add: list_emb_append_mono)
  ultimately have "subseq (filterStep h thr acc a) (ys @ [a])" by (rule subseq_order.trans)
  from Cons.IH [OF this] show ?case by simp
qed

lemma subseq_filtered:
  "subseq (snd (filterOverlappingElements h xs thr)) (sort_key (areaWeightKey h) xs)"
  using subseq_foldl_filterStep [of "[]" "[]" h thr "sort_key (areaWeightKey h) xs"]
  by (simp add: filterOverlappingElements_eq sort_by_compareAreaWeight)

lemma sorted_subseq:
  fixes ys :: "'a::linorder list"
  shows "subseq xs ys \<Longrightarrow> sorted ys \<Longrightarrow> sorted xs"
  by (auto simp: subseq_conv_nths sorted_nths)

lemma sorted_filtered:
  "sorted (map (areaWeightKey h) (snd (filterOverlappingElements h xs thr)))"
proof -
  have "subseq (map (areaWeightKey h) (snd (filterOverlappingElements h xs thr)))
          (map (areaWeightKey h) (sort_key (areaWeightKey h) xs))"
    by (rule subseq_map) (rule subseq_filtered)
  then show ?thesis by (rule sorted_subseq) (rule sorted_sort_key)
qed

lemma filtered_keeps_all:
  assumes "mset (snd (filterOverlappingElements h xs thr)) = mset xs"
  shows "snd (filterOverlappingElements h xs thr) = sort_key (areaWeightKey h) xs"
proof (rule subseq_same_length)
  show "subseq (snd (filterOverlappingElements h xs thr)) (sort_key (areaWeightKey h) xs)"
    by (rule subseq_filtered)
  from assms have "length (snd (filterOverlappingElements h xs thr)) = length xs"
    by (rule mset_eq_length)
  then show "length (snd (filterOverlappingElements h xs thr)) = length (sort_key (areaWeightKey h) xs)"
    by simp
qed

lemma rowLeftKey_same_tops:
  assumes "map (topKey h) ys = map (topKey h) ys'"
  shows "rowLeftKey h (rowsOf h ys) = rowLeftKey h (rowsOf h ys')"
  by (simp add: fun_eq_iff rowLeftKey_def rowNo_same_tops [OF assms])

lemma position_fixed:
  assumes "sorted (map (areaWeightKey h) F)"
    and "P = concat (map (sort_key (leftKey h)) (rowsOf h (sort_key (topKey h) F)))"
  shows "concat (map (sort_key (leftKey h))
           (rowsOf h (sort_key (topKey h) (sort_key (areaWeightKey h) P)))) = P"
proof -
  let ?T = "topKey h" and ?K = "areaWeightKey h"
  let ?Y = "sort_key ?T F" and ?Y' = "sort_key ?T (sort_key ?K P)"
  define rl where "rl = rowLeftKey h (rowsOf h ?Y)"
  have msetP: "mset P = mset F"
    by (simp add: assms(2) mset_concat_map_sort concat_rowsOf)
  have "mset (map ?T ?Y) = mset (map ?T ?Y')"
    by (simp add: msetP)
  moreover have "sorted (map ?T ?Y)" "sorted (map ?T ?Y')" by (rule sorted_sort_key)+
  ultimately have tops: "map ?T ?Y = map ?T ?Y'" by (intro sorted_same_mset)
  then have rl': "rowLeftKey h (rowsOf h ?Y') = rl"
    unfolding rl_def by (rule rowLeftKey_same_tops [symmetric])
  have "P = sort_key rl ?Y"
    unfolding rl_def assms(2) by (rule position_as_sort) (rule sorted_sort_key)
  also have "\<dots> = sort_key (\<lambda>r. (rl r, ?T r)) F" by (rule sort_key_twice)
  finally have P: "P = sort_key (\<lambda>r. (rl r, ?T r)) F" .
  have "concat (map (sort_key (leftKey h)) (rowsOf h ?Y')) = sort_key (rowLeftKey h (rowsOf h ?Y')) ?Y'"
    by (rule position_as_sort) (rule sorted_sort_key)
  also have "\<dots> = sort_key rl (sort_key ?T (sort_key ?K P))" by (simp only: rl')
  also have "\<dots> = sort_key (\<lambda>r. (rl r, ?T r)) (sort_key ?K P)"
    by (rule sort_key_twice)
  also have "\<dots> = sort_key (\<lambda>r. ((rl r, ?T r), ?K r)) P"
    by (rule sort_key_twice)
  also have "\<dots> = P"
  proof (rule sort_key_id_if_sorted, rule sorted_pair_keys)
    show "sorted (map (\<lambda>r. (rl r, ?T r)) P)"
      by (subst P) (rule sorted_sort_key)
    fix k
    have "filter (\<lambda>r. (rl r, ?T r) = k) P = filter (\<lambda>r. (rl r, ?T r) = k) F"
      by (subst P) (rule sort_key_stable)
    moreover have "sorted (map ?K (filter (\<lambda>r. (rl r, ?T r) = k) F))"
      using assms(1) by (rule sorted_filter)
    ultimately show "sorted (map ?K (filter (\<lambda>r. (rl r, ?T r) = k) P))" by simp
  qed
  finally show ?thesis .
qed

lemma filterElements_parts:
  assumes "filterElements h elements thr = (h1, arr1, resolved)"
  shows "resolved = concat (map (sort_key (leftKey h))
            (rowsOf h (sort_key (topKey h) (snd (filterOverlappingElements h elements thr)))))"
    and "h1 = assignIndex h 0 resolved"
  using assms
  by (auto simp: filterElements_def sortElementsByPosition_eq Let_def sort_by_compareTop
      sort_by_compareLeft [abs_def] split: prod.splits)

lemma resolve_again:
  assumes "filterElements h elements thr = (h1, arr1, resolved)"
    and "mset (snd (filterOverlappingElements h1 resolved thr)) = mset resolved"
  shows "fst (filterElements h1 resolved thr) = h1"
    and "snd (snd (filterElements h1 resolved thr)) = resolved"
proof -
  let ?F = "snd (filterOverlappingElements h elements thr)"
  note parts = filterElements_parts [OF assms(1)]
  have shape: "sameShape h h1" unfolding parts(2) by (rule sameShape_assignIndex)
  then have f2: "filterOverlappingElements h1 resolved thr = filterOverlappingElements h resolved thr"
    by (rule sameShape_filterOverlappingElements)
  with assms(2) have "mset (snd (filterOverlappingElements h resolved thr)) = mset resolved" by simp
  then have kept: "snd (filterOverlappingElements h resolved thr) = sort_key (areaWeightKey h) resolved"
    by (rule filtered_keeps_all)
  have "snd (sortElementsByPosition h1 (sort_key (areaWeightKey h) resolved)) =
        snd (sortElementsByPosition h (sort_key (areaWeightKey h) resolved))"
    using shape by (rule sameShape_position)
  also have "\<dots> = concat (map (sort_key (leftKey h))
           (rowsOf h (sort_key (topKey h) (sort_key (areaWeightKey h) resolved))))"
    by (simp add: sortElementsByPosition_eq Let_def sort_by_compareTop sort_by_compareLeft [abs_def])
  also have "\<dots> = resolved"
    using sorted_filtered parts(1) by (rule position_fixed)
  finally have pos: "snd (sortElementsByPosition h1 (sort_key (areaWeightKey h) resolved)) = resolved" .
  obtain arr2 where f2': "filterOverlappingElements h1 resolved thr = (arr2, sort_key (areaWeightKey h) resolved)"
    using f2 kept by (metis prod.collapse)
  obtain h2 where p2: "sortElementsByPosition h1 (sort_key (areaWeightKey h) resolved) = (h2, resolved)"
    using pos by (metis prod.collapse)
  have fe: "filterElements h1 resolved thr = (h2, arr2, resolved)"
    by (simp add: filterElements_def f2' p2)
  then show "snd (snd (filterElements h1 resolved thr)) = resolved" by simp
  have "h2 = assignIndex h1 0 resolved"
    using p2 by (auto simp: sortElementsByPosition_eq Let_def)
  also have "\<dots> = h1" unfolding parts(2) by (rule assignIndex_again)
  finally show "fst (filterElements h1 resolved thr) = h1" using fe by simp
qed

subsection \<open>Resolving twice, without ties and evictions\<close>

lemma scanFiltered_without_eviction:
  assumes "\<forall>e \<in> set acc. \<not> evicts h thr cur e"
  shows "scanFiltered h thr cur acc = ((\<forall>e \<in> set acc. undecided h thr cur e), acc)"
  using assms
proof (induction acc)
  case Nil
  then show ?case by simp
next
  case (Cons e acc)
  then have ih: "scanFiltered h thr cur acc = ((\<forall>e \<in> set acc. undecided h thr cur e), acc)"
    and ne: "\<not> evicts h thr cur e" by simp_all
  from ne show ?case
    by (auto simp: ih evicts_def undecided_def overThreshold_def containedIn_def dominates_def
        atLeastHalf_def)
qed

lemma filterStep_without_eviction:
  assumes "\<forall>e \<in> set acc. \<not> evicts h thr cur e"
  shows "filterStep h thr acc cur =
           (if \<forall>e \<in> set acc. undecided h thr cur e then acc @ [cur] else acc)"
  by (simp add: filterStep_def scanFiltered_without_eviction [OF assms])

lemma accepted_foldl_filterStep:
  assumes "\<forall>a \<in> A. \<forall>b \<in> A. \<not> evicts h thr a b"
    and "set acc \<subseteq> A" and "set xs \<subseteq> A"
    and "sorted_wrt (\<lambda>e cur. undecided h thr cur e) acc"
  shows "sorted_wrt (\<lambda>e cur. undecided h thr cur e) (foldl (filterStep h thr) acc xs)"
  using assms(2,3,4)
proof (induction xs arbitrary: acc)
  case Nil
  then show ?case by simp
next
  case (Cons x xs)
  from Cons.prems assms(1) have "\<forall>e \<in> set acc. \<not> evicts h thr x e" by auto
  then have st: "filterStep h thr acc x =
      (if \<forall>e \<in> set acc. undecided h thr x e then acc @ [x] else acc)"
    by (rule filterStep_without_eviction)
  have "set (filterStep h thr acc x) \<subseteq> A" using Cons.prems by (simp add: st)
  moreover have "sorted_wrt (\<lambda>e cur. undecided h thr cur e) (filterStep h thr acc x)"
    using Cons.prems by (simp add: st sorted_wrt_append)
  moreover have "set xs \<subseteq> A" using Cons.prems by simp
  ultimately show ?case using Cons.IH by simp
qed

lemma foldl_filterStep_accepted:
  assumes "\<forall>a \<in> A. \<forall>b \<in> A. \<not> evicts h thr a b"
    and "set acc \<subseteq> A" and "set xs \<subseteq> A"
    and "sorted_wrt (\<lambda>e cur. undecided h thr cur e) (acc @ xs)"
  shows "foldl (filterStep h thr) acc xs = acc @ xs"
  using assms(2,3,4)
proof (induction xs arbitrary: acc)
  case Nil
  then show ?case by simp
next
  case (Cons x xs)
  from Cons.prems assms(1) have "\<forall>e \<in> set acc. \<not> evicts h thr x e" by auto
  then have "filterStep h thr acc x =
      (if \<forall>e \<in> set acc. undecided h thr x e then acc @ [x] else acc)"
    by (rule filterStep_without_eviction)
  moreover have "\<forall>e \<in> set acc. undecided h thr x e"
    using Cons.prems(3) by (simp add: sorted_wrt_append)
  ultimately have st: "filterStep h thr acc x = acc @ [x]" by simp
  have "foldl (filterStep h thr) (acc @ [x]) xs = (acc @ [x]) @ xs"
    using Cons.prems by (intro Cons.IH) simp_all
  with st show ?case by simp
qed

lemma subseq_set: "subseq xs ys \<Longrightarrow> set xs \<subseteq> set ys"
  by (auto simp: subseq_conv_nths dest: in_set_nthsD)

lemma subseq_distinct: "subseq xs ys \<Longrightarrow> distinct ys \<Longrightarrow> distinct xs"
  by (rule subseqs_distinctD [of xs ys]) (simp_all add: set_subseqs_eq)

lemma set_filtered: "set (snd (filterOverlappingElements h xs thr)) \<subseteq> set xs"
  using subseq_set [OF subseq_filtered [of h xs thr]] by simp

lemma distinct_filtered:
  "distinct xs \<Longrightarrow> distinct (snd (filterOverlappingElements h xs thr))"
  using subseq_distinct [OF subseq_filtered [of h xs thr]] by simp

lemma filtered_again:
  assumes ties: "inj_on (areaWeightKey h) (set elements)"
    and ev: "\<forall>a \<in> set elements. \<forall>b \<in> set elements. \<not> evicts h thr a b"
    and perm: "mset P = mset (snd (filterOverlappingElements h elements thr))"
  shows "filterOverlappingElements h P thr =
           (snd (filterOverlappingElements h elements thr), snd (filterOverlappingElements h elements thr))"
proof -
  let ?F = "snd (filterOverlappingElements h elements thr)"
  let ?S = "sort_key (areaWeightKey h) elements"
  have F: "?F = foldl (filterStep h thr) [] ?S"
    by (simp add: filterOverlappingElements_eq sort_by_compareAreaWeight)
  have sub: "set ?F \<subseteq> set elements" by (rule set_filtered)
  have acc: "sorted_wrt (\<lambda>e cur. undecided h thr cur e) ?F"
    unfolding F by (rule accepted_foldl_filterStep [OF ev]) simp_all
  have "set P = set ?F" using perm by (rule mset_eq_setD)
  with ties sub have "inj_on (areaWeightKey h) (set P)" by (auto intro: inj_on_subset)
  with perm have srt: "sort_key (areaWeightKey h) P = ?F"
    by (rule sort_key_inj_key_eq) (rule sorted_filtered)
  have "foldl (filterStep h thr) [] ?F = [] @ ?F"
    using ev _ sub by (rule foldl_filterStep_accepted) (simp_all add: acc)
  then show ?thesis
    by (simp add: filterOverlappingElements_eq [of h P] sort_by_compareAreaWeight srt)
qed

lemma resolve_again_without_ties_and_evictions:
  assumes res: "filterElements h elements thr = (h1, arr1, resolved)"
    and ties: "inj_on (areaWeightKey h) (set elements)"
    and ev: "\<forall>a \<in> set elements. \<forall>b \<in> set elements. \<not> evicts h thr a b"
  shows "filterElements h1 resolved thr =
           (h1, snd (filterOverlappingElements h elements thr), resolved)"
proof -
  let ?F = "snd (filterOverlappingElements h elements thr)"
  note parts = filterElements_parts [OF res]
  have shape: "sameShape h h1" unfolding parts(2) by (rule sameShape_assignIndex)
  have "resolved = snd (sortElementsByPosition h ?F)"
    using res by (auto simp: filterElements_def split: prod.splits)
  then have perm: "mset resolved = mset ?F" by (simp add: mset_position)
  have f2: "filterOverlappingElements h1 resolved thr = (?F, ?F)"
    unfolding sameShape_filterOverlappingElements [OF shape]
    using ties ev perm by (rule filtered_again)
  then have m: "mset (snd (filterOverlappingElements h1 resolved thr)) = mset resolved"
    using perm by simp
  from resolve_again [OF res m] have "fst (filterElements h1 resolved thr) = h1"
    and "snd (snd (filterElements h1 resolved thr)) = resolved" by simp_all
  moreover have "fst (snd (filterElements h1 resolved thr)) = ?F"
    using f2 by (simp add: filterElements_def split: prod.splits)
  ultimately show ?thesis by (metis prod.collapse)
qed

text \<open>
  A tie alone breaks idempotence: a point inside a segment, both of area 0 and of equal
  weight. In input order both are kept; the reading order puts the segment first, and
  then the point, lying inside it, is dropped.
\<close>

lemma resolving_twice_with_a_tie:
  "snd (snd (filterElements storePointInSegment [0, 1] (7 / 10))) = [1, 0] \<and>
   snd (snd (filterElements (fst (filterElements storePointInSegment [0, 1] (7 / 10))) [1, 0] (7 / 10))) = [1] \<and>
   list_all (\<lambda>a. list_all (\<lambda>b. \<not> evicts storePointInSegment (7 / 10) a b) [0, 1]) [0, 1]"
  by (simp add: resolver_eval storePointInSegment_def evicts_def overThreshold_def containedIn_def
      dominates_def atLeastHalf_def)

subsection \<open>What the resolver writes\<close>

lemma filterElements_index:
  assumes "distinct elements" and "filterElements h elements thr = (h', arr, res)"
    and "i < length res"
  shows "h' (res ! i) = (h (res ! i))\<lparr>index := int i\<rparr>"
proof -
  have d: "distinct (snd (filterOverlappingElements h elements thr))"
    using assms(1) by (rule distinct_filtered)
  have "sortElementsByPosition h (snd (filterOverlappingElements h elements thr)) = (h', res)"
    using assms(2) by (auto simp: filterElements_def split: prod.splits)
  with d show ?thesis using assms(3) by (rule sortElementsByPosition_index)
qed

lemma filterElements_other:
  assumes "filterElements h elements thr = (h', arr, res)" and "r \<notin> set res"
  shows "h' r = h r"
proof -
  have p: "sortElementsByPosition h (snd (filterOverlappingElements h elements thr)) = (h', res)"
    using assms(1) by (auto simp: filterElements_def split: prod.splits)
  then have "mset res = mset (snd (filterOverlappingElements h elements thr))"
    using mset_position [of h "snd (filterOverlappingElements h elements thr)"] by simp
  then have "set res = set (snd (filterOverlappingElements h elements thr))" by (rule mset_eq_setD)
  with assms(2) have "r \<notin> set (snd (filterOverlappingElements h elements thr))" by simp
  with p show ?thesis by (rule sortElementsByPosition_other)
qed

lemma filterElements_array:
  assumes "filterElements h elements thr = (h', arr, res)"
  shows "arr = sort_by (compareAreaWeight h) elements"
  using assms by (auto simp: filterElements_def filterOverlappingElements_eq split: prod.splits)

lemma filterElements_unchanged_iff:
  assumes "distinct elements" and "filterElements h elements thr = (h', arr, res)"
  shows "h' = h \<and> arr = elements \<longleftrightarrow>
         elements = sort_by (compareAreaWeight h) elements \<and>
         (\<forall>i < length res. index (h (res ! i)) = int i)"
proof
  assume a: "h' = h \<and> arr = elements"
  have "index (h (res ! i)) = int i" if "i < length res" for i
  proof -
    from assms that have "h' (res ! i) = (h (res ! i))\<lparr>index := int i\<rparr>"
      by (rule filterElements_index)
    with a have "h (res ! i) = (h (res ! i))\<lparr>index := int i\<rparr>" by simp
    then have "index (h (res ! i)) = index ((h (res ! i))\<lparr>index := int i\<rparr>)" by simp
    then show ?thesis by simp
  qed
  with a filterElements_array [OF assms(2)] show
    "elements = sort_by (compareAreaWeight h) elements \<and>
     (\<forall>i < length res. index (h (res ! i)) = int i)" by simp
next
  assume b: "elements = sort_by (compareAreaWeight h) elements \<and>
     (\<forall>i < length res. index (h (res ! i)) = int i)"
  have "h' r = h r" for r
  proof (cases "r \<in> set res")
    case True
    then obtain i where i: "i < length res" "res ! i = r" by (auto simp: in_set_conv_nth)
    with assms have "h' r = (h r)\<lparr>index := int i\<rparr>"
      using filterElements_index by blast
    moreover from b i have "index (h r) = int i" by auto
    ultimately show ?thesis by simp
  next
    case False
    with assms(2) show ?thesis by (rule filterElements_other)
  qed
  then have "h' = h" by (rule ext)
  with b filterElements_array [OF assms(2)] show "h' = h \<and> arr = elements" by simp
qed

subsection \<open>Counting active markers\<close>

lemma marked_iff_activeMarkers: "marked m \<longleftrightarrow> 0 < activeMarkers m"
  by (simp add: marked_def activeMarkers_def list_ex_iff filter_empty_conv
      split: message_content.splits)

lemma activeMarkers_clearMessage: "activeMarkers (clearMessage m) = 0"
  using not_marked_clearMessage [of m] by (simp add: marked_iff_activeMarkers)

lemma activeInLog_unmarked: "\<forall>m \<in> set ms. \<not> marked m \<Longrightarrow> activeInLog ms = 0"
  by (simp add: activeInLog_def marked_iff_activeMarkers)

lemma activeInLog_cleared: "activeInLog (map clearMessage ms) = 0"
  by (simp add: activeInLog_def activeMarkers_clearMessage comp_def)

lemma activeInLog_latest:
  assumes "\<forall>x \<in> set later. \<not> marked x"
  shows "activeInLog (map clearMessage earlier @ m # later) = activeMarkers m"
  using activeInLog_unmarked [OF assms] activeInLog_cleared [of earlier]
  by (simp add: activeInLog_def)

lemma getMessages_activeInLog:
  assumes "getMessages ms = Inr ms'" and "\<forall>m \<in> set ms. activeMarkers m \<le> 1"
  shows "activeInLog ms' \<le> 1"
proof -
  from getMessages_shape [OF assms(1)] show ?thesis
  proof
    assume "(\<forall>m\<in>set ms. \<not> marked m) \<and> ms' = ms"
    then show ?thesis by (simp add: activeInLog_unmarked)
  next
    assume "\<exists>earlier m later. ms = earlier @ m # later \<and> marked m \<and> (\<forall>x\<in>set later. \<not> marked x) \<and>
        ms' = map clearMessage earlier @ m # later"
    then obtain earlier m later where d: "ms = earlier @ m # later" "\<forall>x\<in>set later. \<not> marked x"
      "ms' = map clearMessage earlier @ m # later" by blast
    from d(1) assms(2) have "activeMarkers m \<le> 1" by simp
    with d(2,3) show ?thesis by (simp add: activeInLog_latest)
  qed
qed

subsection \<open>A step in which getMessages throws\<close>

text \<open>
  When \<open>hasCacheControl\<close> throws on a message with string content, the markers of the
  messages scanned before, those after the last marked one, are already cleared in the log.
\<close>

lemma step_getMessages_throws:
  "getMessages logStringContent = Inl (TypeError ''message.content.some is not a function'') \<and>
   step logStringContent None (Inr (snapshot [])) describeNothing modelFails stop =
     ([UserMessage (Str ''note'') False,
       UserMessage (Parts [TextContent ''one'' (Some False)]) False,
       UserMessage (Parts [TextContent ''two'' (Some True)]) False],
      Inl (TypeError ''message.content.some is not a function''))"
  by (simp add: step_def getMessages_def messagesAfterGet_def logStringContent_def
      hasCacheControl_def removeCacheControl_def)

subsection \<open>A step that throws in streaming mode\<close>

text \<open>The stream carries the chunks of the steps before, and nothing about the error.\<close>

lemma runStream_step_throws:
  "0 < maxSteps \<Longrightarrow>
   runStream (\<lambda>n res s. (s, Inl e)) maxSteps timeout elapsed s = (s, [])"
  by (simp add: runStream_def stream_loop.simps [of _ _ _ _ 0])

section \<open>The claims\<close>

subsection \<open>State synchronizer\<close>

text \<open>
  C1. If the capture cycle fails on every attempt and the browser holds a state snapshot,
  \<open>updateState\<close> returns that stale snapshot instead of the error, and leaves the browser
  as it was; an error reaches the caller only when the browser holds no snapshot. The
  stale snapshot is returned on the first failed call, so no delay is waited.
\<close>

theorem updateState_returns_stale_snapshot:
  "(state b = Some s \<and> (\<forall>k < numOfAttempts updateStateOptions. \<exists>e. cycles k = Inl e)
      \<longrightarrow> updateState b cycles = (b, Inr s, [], 1)) \<and>
   (\<forall>b' e delays calls. updateState b cycles = (b', Inl e, delays, calls) \<longrightarrow> state b = None)"
proof (intro conjI impI allI)
  assume a: "state b = Some s \<and> (\<forall>k < numOfAttempts updateStateOptions. \<exists>e. cycles k = Inl e)"
  then have "\<exists>e. cycles 0 = Inl e" by (simp add: updateStateOptions_def)
  then obtain e where "cycles 0 = Inl e" by blast
  with a show "updateState b cycles = (b, Inr s, [], 1)"
    by (simp add: updateState_first_failure)
next
  fix b' e delays calls
  assume "updateState b cycles = (b', Inl e, delays, calls)"
  then have "fst (snd (updateState b cycles)) = Inl e" by simp
  then show "state b = None" by (rule updateState_error_only_without_state)
qed

theorem updateState_returns_stale_snapshot_witness:
  "state \<lparr>state = Some (snapshot ''https://example.com'')\<rparr> = Some (snapshot ''https://example.com'') \<and>
   numOfAttempts updateStateOptions = 3 \<and>
   map failing [0, 1, 2] = replicate 3 (Inl (Error ''capture failed'')) \<and>
   updateState \<lparr>state = Some (snapshot ''https://example.com'')\<rparr> failing =
     (\<lparr>state = Some (snapshot ''https://example.com'')\<rparr>, Inr (snapshot ''https://example.com''), [], 1) \<and>
   updateState (close newBrowser) failing =
     (close newBrowser, Inl (Error ''capture failed''), [500, 750], 3) \<and>
   state (close newBrowser) = None"
  using updateState_returns_stale_snapshot
    [of "\<lparr>state = Some (snapshot ''https://example.com'')\<rparr>" "snapshot ''https://example.com''" failing]
    updateState_returns_stale_snapshot [of "close newBrowser" undefined failing]
  by (simp add: failing_def updateState_def backOff_def backOff_loop.simps [of _ _ _ 0]
      backOff_loop.simps [of _ _ _ "Suc 0"] backOff_loop.simps [of _ _ _ "Suc (Suc 0)"]
      updateStateOptions_def updateState_inner_def delayBefore_def newBrowser_def initState_def close_def
      numeral_3_eq_3)

text \<open>
  C2. A browser as the constructor leaves it holds the placeholder state of
  \<open>initState\<close>. When the capture cycle fails twice and would succeed the third time,
  \<open>updateState\<close> on that browser calls the cycle once, waits no delay and returns the
  placeholder: there is no retry. Only a browser without a state (after \<open>close\<close>) is
  retried: two retries, waiting 500 ms and 750 ms, and the third call's snapshot.
\<close>

theorem updateState_fresh_browser_no_retry:
  "updateState newBrowser failsTwice = (newBrowser, Inr (snapshot []), [], 1) \<and>
   failsTwice 2 = Inr (snapshot ''https://example.com'') \<and>
   updateState (close newBrowser) failsTwice =
     (\<lparr>state = Some (snapshot ''https://example.com'')\<rparr>, Inr (snapshot ''https://example.com''), [500, 750], 3)"
  by (simp add: failsTwice_def updateState_def backOff_def backOff_loop.simps [of _ _ _ 0]
      backOff_loop.simps [of _ _ _ "Suc 0"] backOff_loop.simps [of _ _ _ "Suc (Suc 0)"]
      updateStateOptions_def updateState_inner_def delayBefore_def newBrowser_def initState_def
      snapshot_def close_def)

subsection \<open>Element resolver\<close>

text \<open>
  C3, as stated, fails. A candidate that lies inside an accepted element of lower weight is
  dropped all the same when their IoU is over the threshold (the IoU test comes first): the
  10 by 8 box of weight 2 inside the 10 by 10 box of weight 1. And a candidate is kept although
  its IoU with an accepted element is over the threshold, when an earlier accepted element
  is evicted by it: the scan stops at the eviction.
\<close>

theorem overlap_rule_counterexample:
  "snd (filterOverlappingElements storeContained [0, 1] (7 / 10)) = [0] \<and>
   isFullyContained (rect (storeContained 1)) (rect (storeContained 0)) \<and>
   \<not> (weight (storeContained 0) \<ge> weight (storeContained 1) \<and>
      zIndex (storeContained 0) = zIndex (storeContained 1)) \<and>
   snd (filterOverlappingElements storeEvict [0, 1, 2] (7 / 10)) = [1, 2] \<and>
   calculateIou (rect (storeEvict 2)) (rect (storeEvict 1)) > 7 / 10"
  by (simp add: resolver_eval storeContained_def storeEvict_def)

text \<open>
  C3, amended. The candidates are processed in the order of the in-place sort: a permutation
  of the input by descending area, ties by descending weight, elements that agree in both in
  their input order; the result is the fold of
  \<open>filterStep\<close> over them. A candidate is compared with the accepted elements in the
  order of acceptance, and the first one that does not leave it undecided settles it: the
  candidate is dropped if its IoU with that element is over the threshold; else, lying
  inside that element, it is dropped if the element has equal or greater weight and the same
  z-index; else, its area being at least half the element's, the element is removed and the
  candidate is appended, whatever the later accepted elements are. A candidate that all
  accepted elements leave undecided is appended.
\<close>

theorem overlap_filter_scan_rule:
  "mset (fst (filterOverlappingElements h elements thr)) = mset elements \<and>
   sorted_wrt (areaWeightOrder h) (fst (filterOverlappingElements h elements thr)) \<and>
   filter (\<lambda>r. rectArea (h r) = a \<and> weight (h r) = w) (fst (filterOverlappingElements h elements thr)) =
     filter (\<lambda>r. rectArea (h r) = a \<and> weight (h r) = w) elements \<and>
   snd (filterOverlappingElements h elements thr) =
     foldl (filterStep h thr) [] (fst (filterOverlappingElements h elements thr)) \<and>
   ((\<forall>x \<in> set pre. undecided h thr cur x) \<longrightarrow>
      filterStep h thr pre cur = pre @ [cur] \<and>
      (overThreshold h thr cur e \<longrightarrow> filterStep h thr (pre @ e # post) cur = pre @ e # post) \<and>
      (\<not> overThreshold h thr cur e \<and> containedIn h cur e \<and> dominates h e cur \<longrightarrow>
         filterStep h thr (pre @ e # post) cur = pre @ e # post) \<and>
      (\<not> overThreshold h thr cur e \<and> containedIn h cur e \<and> \<not> dominates h e cur \<and>
       atLeastHalf h cur e \<longrightarrow>
         filterStep h thr (pre @ e # post) cur = pre @ post @ [cur]))"
  by (simp add: filterOverlappingElements_eq mset_sort_by_areaWeight sorted_wrt_areaWeight
      stable_sort_by_areaWeight filterStep_all_undecided filterStep_over filterStep_dominated
      filterStep_evict)

theorem overlap_filter_scan_rule_witness:
  "undecided storeEvict (7 / 10) 1 0 \<and>
   filterStep storeEvict (7 / 10) [0] 1 = [0, 1] \<and>
   \<not> overThreshold storeEvict (7 / 10) 2 0 \<and> containedIn storeEvict 2 0 \<and>
   \<not> dominates storeEvict 0 2 \<and> atLeastHalf storeEvict 2 0 \<and>
   filterStep storeEvict (7 / 10) [0, 1] 2 = [1, 2] \<and>
   overThreshold storeContained (7 / 10) 1 0 \<and>
   filterStep storeContained (7 / 10) [0] 1 = [0] \<and>
   fst (filterOverlappingElements storeEvict [2, 1, 0] (7 / 10)) = [0, 1, 2]"
  using overlap_filter_scan_rule [of storeEvict "[2, 1, 0]" "7 / 10" 0 0 "[0]" 1 0 "[]"]
    overlap_filter_scan_rule [of storeEvict "[2, 1, 0]" "7 / 10" 0 0 "[]" 2 0 "[1]"]
    overlap_filter_scan_rule [of storeContained "[0, 1]" "7 / 10" 0 0 "[]" 1 0 "[]"]
  by (simp add: resolver_eval storeContained_def storeEvict_def undecided_def overThreshold_def
      containedIn_def dominates_def atLeastHalf_def)

text \<open>
  C5, as stated, fails: of two boxes of equal area and weight whose IoU is over the
  threshold, the one that comes first in the input survives.
\<close>

theorem resolver_order_counterexample:
  "mset [1, 0] = mset [0, 1::nat] \<and>
   snd (snd (filterElements storeTie [0, 1] (7 / 10))) = [0] \<and>
   snd (snd (filterElements storeTie [1, 0] (7 / 10))) = [1]"
  by (simp add: resolver_eval storeTie_def)

text \<open>
  C5, amended. When no two different elements of the input agree in both area and weight,
  resolving a permutation of the input gives the same result as resolving the input: the
  same returned list, the same store (hence the same indexes), and the same order of the
  caller's array.
\<close>

theorem resolver_order_invariant_without_ties:
  "mset ys = mset xs \<and>
   (\<forall>a \<in> set xs. \<forall>b \<in> set xs.
      rectArea (h a) = rectArea (h b) \<and> weight (h a) = weight (h b) \<longrightarrow> a = b)
   \<longrightarrow> filterElements h ys thr = filterElements h xs thr"
  using filterElements_perm_invariant by blast

theorem resolver_order_invariant_without_ties_witness:
  "mset [2, 0, 1] = mset [0, 1, 2::nat] \<and>
   map (\<lambda>r. (rectArea (storeRows r), weight (storeRows r))) [0, 1, 2] = [(100, 1), (200, 2), (300, 3)] \<and>
   filterElements storeRows [2, 0, 1] (7 / 10) = filterElements storeRows [0, 1, 2] (7 / 10) \<and>
   snd (snd (filterElements storeRows [0, 1, 2] (7 / 10))) = [1, 0, 2]"
  using resolver_order_invariant_without_ties [of "[2, 0, 1]" "[0, 1, 2]" storeRows "7 / 10"]
  by (simp add: resolver_eval storeRows_def)

text \<open>
  C6. \<open>sortElementsByPosition\<close> processes the elements in ascending order of the top
  edge (a permutation of the input). The rows partition that sequence in order; each row is
  not empty; inside a row every element is within 20 pixels of the one added before it, and
  the first element of a row is more than 20 pixels from the last of the row before. The
  result is the rows, each sorted by ascending left edge, one after the other, and the
  element at position \<open>i\<close> of the result has its index set to \<open>i\<close> (the elements
  being distinct objects). Two elements with tops 0 and 30 form two rows; two elements with
  tops 0 and 15 form one row, ordered by left edge.
\<close>

theorem reading_order_sort:
  "mset (sort_by (compareTop h) elements) = mset elements \<and>
   sorted (map (\<lambda>r. top' (rect (h r))) (sort_by (compareTop h) elements)) \<and>
   concat (rowsOf h (sort_by (compareTop h) elements)) = sort_by (compareTop h) elements \<and>
   (\<forall>row \<in> set (rowsOf h (sort_by (compareTop h) elements)).
      row \<noteq> [] \<and> successively (sameRow h) row \<and>
      mset (sort_by (compareLeft h) row) = mset row \<and>
      sorted (map (\<lambda>r. left (rect (h r))) (sort_by (compareLeft h) row))) \<and>
   successively (rowGap h) (rowsOf h (sort_by (compareTop h) elements)) \<and>
   snd (sortElementsByPosition h elements) =
     concat (map (sort_by (compareLeft h)) (rowsOf h (sort_by (compareTop h) elements))) \<and>
   (distinct elements \<longrightarrow>
      (\<forall>i < length (snd (sortElementsByPosition h elements)).
         fst (sortElementsByPosition h elements) (snd (sortElementsByPosition h elements) ! i) =
           (h (snd (sortElementsByPosition h elements) ! i))\<lparr>index := int i\<rparr>)) \<and>
   (top' (rect (h a)) = 0 \<and> top' (rect (h b)) = 30 \<longrightarrow>
      rowsOf h (sort_by (compareTop h) [a, b]) = [[a], [b]] \<and>
      rowsOf h (sort_by (compareTop h) [b, a]) = [[a], [b]]) \<and>
   (top' (rect (h a)) = 0 \<and> top' (rect (h b)) = 15 \<and> left (rect (h a)) < left (rect (h b)) \<longrightarrow>
      rowsOf h (sort_by (compareTop h) [a, b]) = [[a, b]] \<and>
      rowsOf h (sort_by (compareTop h) [b, a]) = [[a, b]] \<and>
      snd (sortElementsByPosition h [a, b]) = [a, b] \<and>
      snd (sortElementsByPosition h [b, a]) = [a, b])"
proof -
  let ?Y = "sort_by (compareTop h) elements"
  have 1: "mset ?Y = mset elements" by (simp add: sort_by_compareTop)
  have 2: "sorted (map (\<lambda>r. top' (rect (h r))) ?Y)" by (rule sorted_top_sort_by)
  have 3: "concat (rowsOf h ?Y) = ?Y" by (rule concat_rowsOf)
  have inv: "rowsInv h (rowsOf h ?Y)" by (rule rowsInv_rowsOf)
  then have 4: "\<forall>row \<in> set (rowsOf h ?Y).
      row \<noteq> [] \<and> successively (sameRow h) row \<and>
      mset (sort_by (compareLeft h) row) = mset row \<and>
      sorted (map (\<lambda>r. left (rect (h r))) (sort_by (compareLeft h) row))"
    using sorted_rows by (simp add: rowsInv_def)
  from inv have 5: "successively (rowGap h) (rowsOf h ?Y)" by (simp add: rowsInv_def)
  have 6: "snd (sortElementsByPosition h elements) = concat (map (sort_by (compareLeft h)) (rowsOf h ?Y))"
    by (simp add: sortElementsByPosition_eq Let_def)
  have 7: "distinct elements \<longrightarrow>
      (\<forall>i < length (snd (sortElementsByPosition h elements)).
         fst (sortElementsByPosition h elements) (snd (sortElementsByPosition h elements) ! i) =
           (h (snd (sortElementsByPosition h elements) ! i))\<lparr>index := int i\<rparr>)"
    using sortElementsByPosition_index [of elements h] by (metis prod.collapse)
  have 8: "top' (rect (h a)) = 0 \<and> top' (rect (h b)) = 30 \<longrightarrow>
      rowsOf h (sort_by (compareTop h) [a, b]) = [[a], [b]] \<and>
      rowsOf h (sort_by (compareTop h) [b, a]) = [[a], [b]]"
    using rows_two_apart by blast
  have 9: "top' (rect (h a)) = 0 \<and> top' (rect (h b)) = 15 \<and> left (rect (h a)) < left (rect (h b)) \<longrightarrow>
      rowsOf h (sort_by (compareTop h) [a, b]) = [[a, b]] \<and>
      rowsOf h (sort_by (compareTop h) [b, a]) = [[a, b]] \<and>
      snd (sortElementsByPosition h [a, b]) = [a, b] \<and>
      snd (sortElementsByPosition h [b, a]) = [a, b]"
    using rows_two_close position_two_close by blast
  from 1 2 3 4 5 6 7 8 9 show ?thesis by blast
qed

theorem reading_order_sort_witness:
  "distinct [2, 0, 1::nat] \<and>
   map (\<lambda>r. (top' (rect (storeRows r)), left (rect (storeRows r)))) [0, 1, 2, 3, 4] =
     [(0, 50), (15, 10), (40, 0), (30, 5), (15, 60)] \<and>
   rowsOf storeRows (sort_by (compareTop storeRows) [2, 0, 1]) = [[0, 1], [2]] \<and>
   snd (sortElementsByPosition storeRows [2, 0, 1]) = [1, 0, 2] \<and>
   map (\<lambda>r. index (fst (sortElementsByPosition storeRows [2, 0, 1]) r)) [1, 0, 2] = [0, 1, 2] \<and>
   map (\<lambda>r. index (storeRows r)) [1, 0, 2] = [7, 7, 7] \<and>
   rowsOf storeRows (sort_by (compareTop storeRows) [3, 0]) = [[0], [3]] \<and>
   rowsOf storeRows (sort_by (compareTop storeRows) [4, 0]) = [[0, 4]] \<and>
   snd (sortElementsByPosition storeRows [4, 0]) = [0, 4]"
proof -
  have vals: "map (\<lambda>r. (top' (rect (storeRows r)), left (rect (storeRows r)))) [0, 1, 2, 3, 4] =
     [(0, 50), (15, 10), (40, 0), (30, 5), (15, 60)]"
    "map (\<lambda>r. index (storeRows r)) [1, 0, 2] = [7, 7, 7]"
    by (simp_all add: storeRows_def element_def)
  have rows: "rowsOf storeRows (sort_by (compareTop storeRows) [2, 0, 1]) = [[0, 1], [2]]"
    by (simp add: rowsOf_def sort_by_def compareTop_def ROW_THRESHOLD_def storeRows_def element_def)
  have res: "snd (sortElementsByPosition storeRows [2, 0, 1]) = [1, 0, 2]"
    by (simp add: sortElementsByPosition_eq Let_def rowsOf_def sort_by_def compareTop_def
        compareLeft_def ROW_THRESHOLD_def storeRows_def element_def)
  have d: "distinct [2, 0, 1::nat]" by simp
  note general = reading_order_sort [of storeRows "[2, 0, 1]"]
  from d general [of 0 3] have
    "\<forall>i < length (snd (sortElementsByPosition storeRows [2, 0, 1])).
         fst (sortElementsByPosition storeRows [2, 0, 1]) (snd (sortElementsByPosition storeRows [2, 0, 1]) ! i) =
           (storeRows (snd (sortElementsByPosition storeRows [2, 0, 1]) ! i))\<lparr>index := int i\<rparr>"
    by blast
  then have idx: "\<forall>i < 3. fst (sortElementsByPosition storeRows [2, 0, 1]) ([1, 0, 2] ! i) =
           (storeRows ([1, 0, 2] ! i))\<lparr>index := int i\<rparr>"
    unfolding res by simp
  have "map (\<lambda>r. index (fst (sortElementsByPosition storeRows [2, 0, 1]) r)) [1, 0, 2] = [0, 1, 2]"
    using idx [rule_format, of 0] idx [rule_format, of 1] idx [rule_format, of 2] by simp
  moreover have "top' (rect (storeRows 0)) = 0 \<and> top' (rect (storeRows 3)) = 30"
    by (simp add: storeRows_def element_def)
  with general [of 0 3] have "rowsOf storeRows (sort_by (compareTop storeRows) [3, 0]) = [[0], [3]]"
    by blast
  moreover have "top' (rect (storeRows 0)) = 0 \<and> top' (rect (storeRows 4)) = 15 \<and>
      left (rect (storeRows 0)) < left (rect (storeRows 4))"
    by (simp add: storeRows_def element_def)
  with general [of 0 4] have "rowsOf storeRows (sort_by (compareTop storeRows) [4, 0]) = [[0, 4]] \<and>
      snd (sortElementsByPosition storeRows [4, 0]) = [0, 4]"
    by blast
  ultimately show ?thesis using vals rows res d by blast
qed

text \<open>
  C10, as stated, fails: a non-empty input can be left as it is. A single box whose index
  is already 0 comes back with the caller's array and the store unchanged.
\<close>

theorem resolver_single_element_unchanged_counterexample:
  "[0] \<noteq> ([]::nat list) \<and>
   filterOverlappingElements storeSingle [0] (7 / 10) = ([0], [0]) \<and>
   sortElementsByPosition storeSingle [0] = (storeSingle, [0]) \<and>
   filterElements storeSingle [0] (7 / 10) = (storeSingle, [0], [0])"
  by (simp add: resolver_eval storeSingle_def fun_eq_iff)

text \<open>
  C10, amended. For a non-empty input, \<open>filterOverlappingElements\<close> leaves the caller's array
  sorted by descending area, then descending weight (a permutation of what it was), and so
  does \<open>filterElements\<close>. \<open>sortElementsByPosition\<close> writes into the objects it was
  given: the element at position \<open>i\<close> of its result has index \<open>i\<close> afterwards, and no
  other object is touched. So the caller's array differs after the call whenever it was not in
  that order, and the store differs whenever an index was not the new position.
  \<open>filterElements\<close> itself, on distinct objects, overwrites the index of every element it
  returns with the position in the result and touches no other object, a dropped element
  included; it leaves both the array and the store as they were exactly when the array was
  already in the order of the sort and every returned element already had its position as
  index.
\<close>

theorem resolver_effect_on_input:
  "(elements \<noteq> [] \<longrightarrow>
      fst (filterOverlappingElements h elements thr) = sort_by (compareAreaWeight h) elements \<and>
      mset (fst (filterOverlappingElements h elements thr)) = mset elements \<and>
      sorted_wrt (areaWeightOrder h) (fst (filterOverlappingElements h elements thr)) \<and>
      fst (snd (filterElements h elements thr)) = fst (filterOverlappingElements h elements thr)) \<and>
   mset (snd (sortElementsByPosition h given)) = mset given \<and>
   (distinct given \<longrightarrow>
      (\<forall>i < length (snd (sortElementsByPosition h given)).
         fst (sortElementsByPosition h given) (snd (sortElementsByPosition h given) ! i) =
           (h (snd (sortElementsByPosition h given) ! i))\<lparr>index := int i\<rparr>)) \<and>
   (\<forall>r. r \<notin> set given \<longrightarrow> fst (sortElementsByPosition h given) r = h r) \<and>
   fst (filterElements h elements thr) =
     fst (sortElementsByPosition h (snd (filterOverlappingElements h elements thr))) \<and>
   (elements \<noteq> sort_by (compareAreaWeight h) elements \<longrightarrow>
      fst (snd (filterElements h elements thr)) \<noteq> elements) \<and>
   (distinct given \<and>
    (\<exists>i < length (snd (sortElementsByPosition h given)).
       index (h (snd (sortElementsByPosition h given) ! i)) \<noteq> int i) \<longrightarrow>
      fst (sortElementsByPosition h given) \<noteq> h) \<and>
   (filterElements h elements thr = (h', arr, res) \<longrightarrow>
      arr = sort_by (compareAreaWeight h) elements \<and>
      (\<forall>r. r \<notin> set res \<longrightarrow> h' r = h r) \<and>
      (distinct elements \<longrightarrow>
         (\<forall>i < length res. h' (res ! i) = (h (res ! i))\<lparr>index := int i\<rparr>) \<and>
         ((h' = h \<and> arr = elements) \<longleftrightarrow>
            (elements = sort_by (compareAreaWeight h) elements \<and>
             (\<forall>i < length res. index (h (res ! i)) = int i)))))"
proof -
  let ?F = "filterOverlappingElements h elements thr"
  let ?P = "sortElementsByPosition h given"
  have 1: "fst ?F = sort_by (compareAreaWeight h) elements"
    by (simp add: filterOverlappingElements_eq)
  have 2: "mset (fst ?F) = mset elements"
    by (simp add: filterOverlappingElements_eq mset_sort_by_areaWeight)
  have 3: "sorted_wrt (areaWeightOrder h) (fst ?F)"
    by (simp add: filterOverlappingElements_eq sorted_wrt_areaWeight)
  have 4: "fst (snd (filterElements h elements thr)) = fst ?F"
    by (simp add: filterElements_def split: prod.splits)
  have 5: "mset (snd ?P) = mset given" by (rule mset_position)
  have 6: "distinct given \<longrightarrow> (\<forall>i < length (snd ?P). fst ?P (snd ?P ! i) = (h (snd ?P ! i))\<lparr>index := int i\<rparr>)"
    using sortElementsByPosition_index [of given h] by (metis prod.collapse)
  have 7: "\<forall>r. r \<notin> set given \<longrightarrow> fst ?P r = h r"
    using sortElementsByPosition_other [of h given] by (metis prod.collapse)
  have 8: "fst (filterElements h elements thr) = fst (sortElementsByPosition h (snd ?F))"
    by (simp add: filterElements_def split: prod.splits)
  have 9: "elements \<noteq> sort_by (compareAreaWeight h) elements \<longrightarrow>
      fst (snd (filterElements h elements thr)) \<noteq> elements"
    using 1 4 by simp
  have 10: "distinct given \<and> (\<exists>i < length (snd ?P). index (h (snd ?P ! i)) \<noteq> int i) \<longrightarrow> fst ?P \<noteq> h"
  proof (intro impI)
    assume a: "distinct given \<and> (\<exists>i < length (snd ?P). index (h (snd ?P ! i)) \<noteq> int i)"
    then obtain i where i: "i < length (snd ?P)" "index (h (snd ?P ! i)) \<noteq> int i" by blast
    with a 6 have "fst ?P (snd ?P ! i) = (h (snd ?P ! i))\<lparr>index := int i\<rparr>" by blast
    then have "index (fst ?P (snd ?P ! i)) = int i" by simp
    with i(2) show "fst ?P \<noteq> h" by auto
  qed
  have 11: "filterElements h elements thr = (h', arr, res) \<longrightarrow>
      arr = sort_by (compareAreaWeight h) elements \<and>
      (\<forall>r. r \<notin> set res \<longrightarrow> h' r = h r) \<and>
      (distinct elements \<longrightarrow>
         (\<forall>i < length res. h' (res ! i) = (h (res ! i))\<lparr>index := int i\<rparr>) \<and>
         ((h' = h \<and> arr = elements) \<longleftrightarrow>
            (elements = sort_by (compareAreaWeight h) elements \<and>
             (\<forall>i < length res. index (h (res ! i)) = int i))))"
  proof (intro impI conjI allI)
    assume e: "filterElements h elements thr = (h', arr, res)"
    then show "arr = sort_by (compareAreaWeight h) elements" by (rule filterElements_array)
    show "h' r = h r" if "r \<notin> set res" for r using e that by (rule filterElements_other)
    assume d: "distinct elements"
    show "h' (res ! i) = (h (res ! i))\<lparr>index := int i\<rparr>" if "i < length res" for i
      using d e that by (rule filterElements_index)
    show "(h' = h \<and> arr = elements) \<longleftrightarrow>
            (elements = sort_by (compareAreaWeight h) elements \<and>
             (\<forall>i < length res. index (h (res ! i)) = int i))"
      using d e by (rule filterElements_unchanged_iff)
  qed
  from 1 2 3 4 5 6 7 8 9 10 have
    "(elements \<noteq> [] \<longrightarrow>
      fst (filterOverlappingElements h elements thr) = sort_by (compareAreaWeight h) elements \<and>
      mset (fst (filterOverlappingElements h elements thr)) = mset elements \<and>
      sorted_wrt (areaWeightOrder h) (fst (filterOverlappingElements h elements thr)) \<and>
      fst (snd (filterElements h elements thr)) = fst (filterOverlappingElements h elements thr)) \<and>
   mset (snd (sortElementsByPosition h given)) = mset given \<and>
   (distinct given \<longrightarrow>
      (\<forall>i < length (snd (sortElementsByPosition h given)).
         fst (sortElementsByPosition h given) (snd (sortElementsByPosition h given) ! i) =
           (h (snd (sortElementsByPosition h given) ! i))\<lparr>index := int i\<rparr>)) \<and>
   (\<forall>r. r \<notin> set given \<longrightarrow> fst (sortElementsByPosition h given) r = h r) \<and>
   fst (filterElements h elements thr) =
     fst (sortElementsByPosition h (snd (filterOverlappingElements h elements thr))) \<and>
   (elements \<noteq> sort_by (compareAreaWeight h) elements \<longrightarrow>
      fst (snd (filterElements h elements thr)) \<noteq> elements) \<and>
   (distinct given \<and>
    (\<exists>i < length (snd (sortElementsByPosition h given)).
       index (h (snd (sortElementsByPosition h given) ! i)) \<noteq> int i) \<longrightarrow>
      fst (sortElementsByPosition h given) \<noteq> h)" by blast
  with 11 show ?thesis by (intro conjI) (elim conjE, assumption)+
qed



theorem resolver_effect_on_input_witness:
  "[0, 1, 2] \<noteq> ([]::nat list) \<and> distinct [0, 1, 2::nat] \<and>
   fst (snd (filterElements storeRows [0, 1, 2] (7 / 10))) = [2, 1, 0] \<and>
   snd (sortElementsByPosition storeRows [0, 1, 2]) = [1, 0, 2] \<and>
   map (\<lambda>r. index (storeRows r)) [0, 1, 2] = [7, 7, 7] \<and>
   map (\<lambda>r. index (fst (sortElementsByPosition storeRows [0, 1, 2]) r)) [0, 1, 2] = [1, 0, 2] \<and>
   fst (sortElementsByPosition storeRows [0, 1, 2]) \<noteq> storeRows \<and>
   distinct [0, 1, 2, 3, 4::nat] \<and>
   snd (filterElements storeNested [0, 1, 2, 3, 4] (7 / 10)) = ([2, 3, 0, 1, 4], [3, 0, 2]) \<and>
   map (\<lambda>r. index (storeNested r)) [0, 1, 2, 3, 4] = [0, 0, 0, 0, 0] \<and>
   map (\<lambda>r. index (fst (filterElements storeNested [0, 1, 2, 3, 4] (7 / 10)) r)) [0, 1, 2, 3, 4] =
     [1, 0, 2, 0, 0] \<and>
   fst (filterElements storeNested [0, 1, 2, 3, 4] (7 / 10)) \<noteq> storeNested"
proof -
  have e: "snd (sortElementsByPosition storeRows [0, 1, 2]) = [1, 0, 2]"
    by (simp add: resolver_eval storeRows_def)
  have "\<exists>i < length (snd (sortElementsByPosition storeRows [0, 1, 2])).
       index (storeRows (snd (sortElementsByPosition storeRows [0, 1, 2]) ! i)) \<noteq> int i"
    unfolding e by (rule exI [of _ 0]) (simp add: storeRows_def element_def)
  then have ne: "fst (sortElementsByPosition storeRows [0, 1, 2]) \<noteq> storeRows"
    using resolver_effect_on_input [of "[0, 1, 2]" storeRows "7 / 10" "[0, 1, 2]"] by simp
  have rows: "[0, 1, 2] \<noteq> ([]::nat list) \<and> distinct [0, 1, 2::nat] \<and>
   fst (snd (filterElements storeRows [0, 1, 2] (7 / 10))) = [2, 1, 0] \<and>
   snd (sortElementsByPosition storeRows [0, 1, 2]) = [1, 0, 2] \<and>
   map (\<lambda>r. index (storeRows r)) [0, 1, 2] = [7, 7, 7] \<and>
   map (\<lambda>r. index (fst (sortElementsByPosition storeRows [0, 1, 2]) r)) [0, 1, 2] = [1, 0, 2]"
    by (simp add: resolver_eval storeRows_def)
  define h1 where "h1 = fst (filterElements storeNested [0, 1, 2, 3, 4] (7 / 10))"
  have r: "snd (filterElements storeNested [0, 1, 2, 3, 4] (7 / 10)) = ([2, 3, 0, 1, 4], [3, 0, 2])"
    by (simp add: resolver_eval storeNested_def)
  then have fe: "filterElements storeNested [0, 1, 2, 3, 4] (7 / 10) = (h1, [2, 3, 0, 1, 4], [3, 0, 2])"
    unfolding h1_def by (metis prod.collapse)
  have d: "distinct [0, 1, 2, 3, 4::nat]" by simp
  note t = resolver_effect_on_input
    [of "[0, 1, 2, 3, 4]" storeNested "7 / 10" "[]" h1 "[2, 3, 0, 1, 4]" "[3, 0, 2]"]
  from t fe d have at: "\<forall>i < length [3, 0, 2::nat]. h1 ([3, 0, 2] ! i) = (storeNested ([3, 0, 2] ! i))\<lparr>index := int i\<rparr>"
    by blast
  from t fe have other: "\<forall>r. r \<notin> set [3, 0, 2::nat] \<longrightarrow> h1 r = storeNested r"
    by blast
  have i3: "index (h1 3) = 0" using at [rule_format, of 0] by simp
  have i0: "index (h1 0) = 1" using at [rule_format, of 1] by simp
  have i2: "index (h1 2) = 2" using at [rule_format, of 2] by simp
  have i1: "index (h1 1) = 0" using other [rule_format, of 1] by (simp add: storeNested_def element_def)
  have i4: "index (h1 4) = 0" using other [rule_format, of 4] by (simp add: storeNested_def element_def)
  have before: "map (\<lambda>r. index (storeNested r)) [0, 1, 2, 3, 4] = [0, 0, 0, 0, 0]"
    by (simp add: storeNested_def element_def)
  have "index (storeNested 0) = 0" by (simp add: storeNested_def element_def)
  with i0 have ne1: "h1 \<noteq> storeNested" by auto
  have after: "map (\<lambda>r. index (h1 r)) [0, 1, 2, 3, 4] = [1, 0, 2, 0, 0]"
    using i0 i1 i2 i3 i4 by simp
  from rows ne d r before after ne1 show ?thesis unfolding h1_def by simp
qed

subsection \<open>Conversation context\<close>

text \<open>
  C7, as stated, fails: \<open>getMessages\<close> keeps the last message that carries an active
  marker as it is, with all its markers. When that message has two marked parts, two
  markers are active in the log that is returned.
\<close>

theorem getMessages_two_active_markers_counterexample:
  "getMessages logTwoParts =
     Inr [UserMessage (Parts [TextContent ''one'' (Some False)]) False,
          UserMessage (Parts [TextContent ''two'' (Some True), TextContent ''three'' (Some True)]) False] \<and>
   map activeMarkers
     [UserMessage (Parts [TextContent ''one'' (Some False)]) False,
      UserMessage (Parts [TextContent ''two'' (Some True), TextContent ''three'' (Some True)]) False] = [0, 2]"
  by (simp add: getMessages_def logTwoParts_def hasCacheControl_def removeCacheControl_def
      activeMarkers_def)

text \<open>
  C7, amended. \<open>getMessages\<close> returns when every message other than a system message has
  an array as content. When it returns, the log has the same length and at most one message
  carries an active marker: if \<open>m\<close> is the last message with an active marker, it is
  returned as it is, the later messages are unchanged and have no active marker, and every
  earlier message is returned with its markers cleared, so the active markers of the
  returned log are those of \<open>m\<close>; a log without markers is returned unchanged. When no
  message of the log has more than one active marker, at most one marker is active in the
  returned log.
\<close>

theorem getMessages_active_markers:
  "((\<forall>m \<in> set ms. \<not> isSystem m \<longrightarrow> (\<exists>ps. contentOf m = Parts ps)) \<longrightarrow>
      (\<exists>ms'. getMessages ms = Inr ms')) \<and>
   (getMessages ms = Inr ms' \<longrightarrow>
      length ms' = length ms \<and>
      length (filter marked ms') \<le> 1 \<and>
      ((\<forall>m \<in> set ms. \<not> marked m) \<longrightarrow> ms' = ms \<and> activeInLog ms' = 0) \<and>
      (ms = earlier @ m # later \<and> marked m \<and> (\<forall>x \<in> set later. \<not> marked x) \<longrightarrow>
         ms' = map clearMessage earlier @ m # later \<and>
         (\<forall>x \<in> set (map clearMessage earlier). \<not> marked x \<and> activeMarkers x = 0) \<and>
         (\<forall>x \<in> set later. activeMarkers x = 0) \<and>
         activeInLog ms' = activeMarkers m) \<and>
      ((\<forall>m \<in> set ms. activeMarkers m \<le> 1) \<longrightarrow> activeInLog ms' \<le> 1))"
proof (intro conjI impI)
  assume "\<forall>m \<in> set ms. \<not> isSystem m \<longrightarrow> (\<exists>ps. contentOf m = Parts ps)"
  then show "\<exists>ms'. getMessages ms = Inr ms'" by (rule getMessages_total)
next
  assume "getMessages ms = Inr ms'"
  then show "length ms' = length ms" by (rule getMessages_length)
next
  assume "getMessages ms = Inr ms'"
  then show "length (filter marked ms') \<le> 1" by (rule getMessages_at_most_one)
next
  assume g: "getMessages ms = Inr ms'" and u: "\<forall>m \<in> set ms. \<not> marked m"
  then have "filter marked ms = []" by (simp add: filter_empty_conv)
  then have "length (filter marked ms) \<le> 1" by simp
  with g show e: "ms' = ms" by (rule getMessages_fixed)
  from u show "activeInLog ms' = 0" unfolding e by (rule activeInLog_unmarked)
next
  assume g: "getMessages ms = Inr ms'"
    and s: "ms = earlier @ m # later \<and> marked m \<and> (\<forall>x \<in> set later. \<not> marked x)"
  then show e: "ms' = map clearMessage earlier @ m # later"
    using getMessages_keeps_latest by blast
  from s show "activeInLog ms' = activeMarkers m" unfolding e by (simp add: activeInLog_latest)
  from s show "\<forall>x \<in> set later. activeMarkers x = 0" by (simp add: marked_iff_activeMarkers)
next
  show "\<forall>x \<in> set (map clearMessage earlier). \<not> marked x \<and> activeMarkers x = 0"
    by (simp add: not_marked_clearMessage activeMarkers_clearMessage)
next
  assume "getMessages ms = Inr ms'" and "\<forall>m \<in> set ms. activeMarkers m \<le> 1"
  then show "activeInLog ms' \<le> 1" by (rule getMessages_activeInLog)
qed

theorem getMessages_active_markers_witness:
  "map marked logMarked25 = [False, True, False, False, True, False] \<and>
   map activeMarkers logMarked25 = [0, 1, 0, 0, 1, 0] \<and>
   list_all (\<lambda>m. \<not> isSystem m \<and> (\<exists>ps. contentOf m = Parts ps)) logMarked25 \<and>
   (\<exists>ms'. getMessages logMarked25 = Inr ms' \<and>
      map marked ms' = [False, False, False, False, True, False] \<and>
      map activeMarkers ms' = [0, 0, 0, 0, 1, 0] \<and>
      activeInLog ms' = 1 \<and>
      ms' = map clearMessage (take 4 logMarked25) @ logMarked25 ! 4 # drop 5 logMarked25)"
proof -
  have m: "map marked logMarked25 = [False, True, False, False, True, False]"
    by (simp add: logMarked25_def marked_def)
  have a: "map activeMarkers logMarked25 = [0, 1, 0, 0, 1, 0]"
    by (simp add: logMarked25_def activeMarkers_def)
  have p: "list_all (\<lambda>m. \<not> isSystem m \<and> (\<exists>ps. contentOf m = Parts ps)) logMarked25"
    by (simp add: logMarked25_def)
  then have "\<forall>m \<in> set logMarked25. \<not> isSystem m \<longrightarrow> (\<exists>ps. contentOf m = Parts ps)"
    by (simp add: list_all_iff)
  with getMessages_active_markers [of logMarked25]
  obtain ms' where g: "getMessages logMarked25 = Inr ms'" by blast
  have split: "logMarked25 = take 4 logMarked25 @ logMarked25 ! 4 # drop 5 logMarked25 \<and>
      marked (logMarked25 ! 4) \<and> (\<forall>x \<in> set (drop 5 logMarked25). \<not> marked x)"
    by (simp add: logMarked25_def marked_def)
  note t = getMessages_active_markers
    [of logMarked25 ms' "take 4 logMarked25" "logMarked25 ! 4" "drop 5 logMarked25"]
  from g split t
  have r: "ms' = map clearMessage (take 4 logMarked25) @ logMarked25 ! 4 # drop 5 logMarked25"
    by blast
  from g split t have "activeInLog ms' = activeMarkers (logMarked25 ! 4)" by blast
  then have n: "activeInLog ms' = 1" by (simp add: logMarked25_def activeMarkers_def)
  from r have k: "map marked ms' = [False, False, False, False, True, False]"
    by (simp add: logMarked25_def marked_def clearMessage_def removeCacheControl_def)
  from r have l: "map activeMarkers ms' = [0, 0, 0, 0, 1, 0]"
    by (simp add: logMarked25_def activeMarkers_def clearMessage_def removeCacheControl_def)
  from m a p g r k l n show ?thesis by simp
qed

subsection \<open>Control loop\<close>

text \<open>
  C8, as stated, fails. After two steps the log holds two active markers (the task message
  and the compact state of step 1). A third step whose model call fails appends the
  perception entry, reads the log through \<open>getMessages\<close>, which clears the older
  marker, and removes the entry: the log is not what it was before the entry was
  appended.
\<close>

theorem step_failure_counterexample:
  "fst (step logAfterStep1 (Some scrolled) (Inr (snapshot ''https://example.com'')) describeNothing
          modelFails stop) =
     logAfterStep1
       [1 := UserMessage (Parts [TextContent ''</scroll_over_element_example>'' (Some False),
                                 TextContent ''task'' None]) False] \<and>
   fst (step logAfterStep1 (Some scrolled) (Inr (snapshot ''https://example.com'')) describeNothing
          modelFails stop) \<noteq> logAfterStep1"
  by (simp add: step_def logAfterStep1_def addCurrentStateMessage_def stateMessage_def getMessages_def
      hasCacheControl_def removeCacheControl_def removeLastMessage_def modelFails_def)

text \<open>
  C8, amended. In a step with a previous result, on a non-empty log, a failed model call
  leaves the log that \<open>getMessages\<close> returns for the log before the perception entry
  was appended: the entry is removed, the length is the same, and the markers of all messages
  before the last marked one are cleared; the log is exactly the one before when that held
  at most one active marker.
\<close>

theorem step_failure_rolls_back:
  "messages \<noteq> [] \<and> getMessages messages = Inr visible \<and>
   generateAction (visible @ [stateMessage (describe st prev) st]) = Inl e \<longrightarrow>
     step messages (Some prev) (Inr st) describe generateAction continue = (visible, Inl e) \<and>
     length visible = length messages \<and>
     (visible = messages \<longleftrightarrow> length (filter marked messages) \<le> 1) \<and>
     (messages = earlier @ m # later \<and> marked m \<and> (\<forall>x \<in> set later. \<not> marked x) \<longrightarrow>
        visible = map clearMessage earlier @ m # later)"
proof (intro impI conjI)
  assume a: "messages \<noteq> [] \<and> getMessages messages = Inr visible \<and>
   generateAction (visible @ [stateMessage (describe st prev) st]) = Inl e"
  then show "step messages (Some prev) (Inr st) describe generateAction continue = (visible, Inl e)"
    by (simp add: step_model_failure)
  from a show "length visible = length messages" by (simp add: getMessages_length)
  from a show "visible = messages \<longleftrightarrow> length (filter marked messages) \<le> 1"
    using getMessages_fixed getMessages_at_most_one by metis
  {
    assume "messages = earlier @ m # later \<and> marked m \<and> (\<forall>x \<in> set later. \<not> marked x)"
    with a show "visible = map clearMessage earlier @ m # later"
      using getMessages_keeps_latest by blast
  }
qed

theorem step_failure_rolls_back_witness:
  "logAfterStep1 \<noteq> [] \<and>
   getMessages logAfterStep1 = Inr (map clearMessage (take 3 logAfterStep1) @ drop 3 logAfterStep1) \<and>
   modelFails (map clearMessage (take 3 logAfterStep1) @ drop 3 logAfterStep1 @
               [stateMessage (describeNothing (snapshot ''https://example.com'') scrolled)
                  (snapshot ''https://example.com'')]) = Inl (Error ''model call failed'') \<and>
   step logAfterStep1 (Some scrolled) (Inr (snapshot ''https://example.com'')) describeNothing modelFails stop =
     (map clearMessage (take 3 logAfterStep1) @ drop 3 logAfterStep1, Inl (Error ''model call failed'')) \<and>
   step (drop 3 logAfterStep1) (Some scrolled) (Inr (snapshot ''https://example.com'')) describeNothing
      modelFails stop = (drop 3 logAfterStep1, Inl (Error ''model call failed''))"
proof -
  have g: "getMessages logAfterStep1 = Inr (map clearMessage (take 3 logAfterStep1) @ drop 3 logAfterStep1)"
    by (simp add: logAfterStep1_def getMessages_def hasCacheControl_def removeCacheControl_def
        clearMessage_def)
  have g': "getMessages (drop 3 logAfterStep1) = Inr (drop 3 logAfterStep1)"
    by (simp add: logAfterStep1_def getMessages_def hasCacheControl_def removeCacheControl_def)
  have ne: "logAfterStep1 \<noteq> []" "drop 3 logAfterStep1 \<noteq> []" by (simp_all add: logAfterStep1_def)
  have f: "modelFails ms = Inl (Error ''model call failed'')" for ms by (simp add: modelFails_def)
  from ne(1) g f step_failure_rolls_back [of logAfterStep1 _ modelFails describeNothing
      "snapshot ''https://example.com''" scrolled "Error ''model call failed''" stop]
  have 1: "step logAfterStep1 (Some scrolled) (Inr (snapshot ''https://example.com'')) describeNothing modelFails stop =
     (map clearMessage (take 3 logAfterStep1) @ drop 3 logAfterStep1, Inl (Error ''model call failed''))"
    by blast
  from ne(2) g' f step_failure_rolls_back [of "drop 3 logAfterStep1" _ modelFails describeNothing
      "snapshot ''https://example.com''" scrolled "Error ''model call failed''" stop]
  have 2: "step (drop 3 logAfterStep1) (Some scrolled) (Inr (snapshot ''https://example.com'')) describeNothing
      modelFails stop = (drop 3 logAfterStep1, Inl (Error ''model call failed''))"
    by blast
  from ne(1) g f 1 2 show ?thesis by simp
qed

text \<open>
  C9, as stated, fails in streaming mode: with a step cap of 5 and steps that are never
  done, the stream carries five step chunks and ends with a chunk of type \<open>error\<close>
  (the state counts the calls of the step: five).
\<close>

theorem step_cap_counterexample:
  "runStream idleStep 5 None (\<lambda>n. 0) 0 =
     (5, replicate 5 (StepChunk scrolled ''scroll down'') @
         [ErrorChunk ''Maximum number of steps reached: 5'']) \<and>
   chunkType (last (snd (runStream idleStep 5 None (\<lambda>n. 0) 0))) = ''error''"
  by (simp add: runStream_def stream_unfold idleStep_def doneOf_def scrolled_def timedOut_def
      decimal.simps numeral_eq_Suc)

text \<open>
  C9, amended. With steps that succeed and are never done, \<open>run\<close> executes exactly
  \<open>maxSteps\<close> steps and returns its output with that step count, no error caught;
  \<open>runStream\<close> without a timeout enqueues exactly \<open>maxSteps\<close> step chunks and then one
  chunk of type \<open>error\<close> with the text \<open>Maximum number of steps reached: maxSteps\<close>.
\<close>

theorem step_cap_terminates:
  "neverDone stepFn \<longrightarrow>
     (\<exists>s' out. run stepFn maxSteps s = (s', out, None) \<and> stepCount out = maxSteps) \<and>
     (\<exists>s' steps. runStream stepFn maxSteps None elapsed s =
          (s', steps @ [ErrorChunk (''Maximum number of steps reached: '' @ decimal maxSteps)]) \<and>
        length steps = maxSteps \<and> (\<forall>c \<in> set steps. chunkType c = ''step''))"
proof (intro impI conjI)
  assume n: "neverDone stepFn"
  from run_loop_never_done [OF n, of 0 maxSteps None s]
  obtain s' r where "run_loop stepFn maxSteps 0 None False s = (s', maxSteps, r, None)" by auto
  then show "\<exists>s' out. run stepFn maxSteps s = (s', out, None) \<and> stepCount out = maxSteps"
    by (simp add: run_def)
  from stream_loop_never_done [OF n, of 0 maxSteps elapsed None s "[]"]
  show "\<exists>s' steps. runStream stepFn maxSteps None elapsed s =
          (s', steps @ [ErrorChunk (''Maximum number of steps reached: '' @ decimal maxSteps)]) \<and>
        length steps = maxSteps \<and> (\<forall>c \<in> set steps. chunkType c = ''step'')"
    by (simp add: runStream_def)
qed

theorem step_cap_terminates_witness:
  "neverDone idleStep \<and>
   run idleStep 5 0 = (5, \<lparr>agentState = None, result = scrolled, stepCount = 5\<rparr>, None) \<and>
   (\<exists>s' steps. runStream idleStep 5 None (\<lambda>n. 0) 0 =
        (s', steps @ [ErrorChunk (''Maximum number of steps reached: '' @ decimal 5)]) \<and>
      length steps = 5 \<and> list_all (\<lambda>c. chunkType c = ''step'') steps)"
proof -
  have r: "run idleStep 5 0 = (5, \<lparr>agentState = None, result = scrolled, stepCount = 5\<rparr>, None)"
    by (simp add: run_def run_unfold idleStep_def doneOf_def scrolled_def numeral_eq_Suc)
  from neverDone_idleStep step_cap_terminates [of idleStep 5 0 "\<lambda>n. 0"] r
  show ?thesis by (simp add: list_all_iff neverDone_idleStep)
qed

subsection \<open>Element resolver: resolving twice\<close>

text \<open>
  C4, as stated, fails. Of the three boxes of \<open>storeEvict\<close> the first pass keeps the
  second and the third: the third evicts the first, and the scan stops there, before the
  second, with which its IoU is over the threshold. Resolving the result again drops the
  third.
\<close>

theorem resolver_idempotence_counterexample:
  "snd (snd (filterElements storeEvict [0, 1, 2] (7 / 10))) = [1, 2] \<and>
   snd (snd (filterElements (fst (filterElements storeEvict [0, 1, 2] (7 / 10))) [1, 2] (7 / 10))) = [1]"
  by (simp add: resolver_eval storeEvict_def)

text \<open>
  C4, amended. Resolving the empty list gives the empty list and leaves the store as it is.
  When no two different elements of the input agree in both area and weight, and no element
  of the input can evict another (no element lies inside another that does not dominate it
  while having at least half its area and an IoU with it not over the threshold), resolving
  the resolved list returns the same elements in the same order and leaves the store, hence
  every index, as the first resolve left it; the array handed to the second resolve is left
  holding the elements in the order in which the overlap filter accepted them.
\<close>

theorem resolver_idempotent_without_ties_and_evictions:
  "filterElements h [] thr = (h, [], []) \<and>
   (filterElements h elements thr = (h1, arr1, resolved) \<and>
    (\<forall>a \<in> set elements. \<forall>b \<in> set elements.
       rectArea (h a) = rectArea (h b) \<and> weight (h a) = weight (h b) \<longrightarrow> a = b) \<and>
    (\<forall>a \<in> set elements. \<forall>b \<in> set elements. \<not> evicts h thr a b) \<longrightarrow>
      filterElements h1 resolved thr =
        (h1, snd (filterOverlappingElements h elements thr), resolved))"
proof (intro conjI impI)
  show "filterElements h [] thr = (h, [], [])"
    by (simp add: filterElements_def filterOverlappingElements_def sortElementsByPosition_def)
next
  assume a: "filterElements h elements thr = (h1, arr1, resolved) \<and>
    (\<forall>a \<in> set elements. \<forall>b \<in> set elements.
       rectArea (h a) = rectArea (h b) \<and> weight (h a) = weight (h b) \<longrightarrow> a = b) \<and>
    (\<forall>a \<in> set elements. \<forall>b \<in> set elements. \<not> evicts h thr a b)"
  then have "inj_on (areaWeightKey h) (set elements)"
    by (auto simp: inj_on_def areaWeightKey_def)
  with a show "filterElements h1 resolved thr =
        (h1, snd (filterOverlappingElements h elements thr), resolved)"
    using resolve_again_without_ties_and_evictions by blast
qed

theorem resolver_idempotent_without_ties_and_evictions_witness:
  "snd (filterElements storeNested [0, 1, 2, 3, 4] (7 / 10)) = ([2, 3, 0, 1, 4], [3, 0, 2]) \<and>
   snd (filterOverlappingElements storeNested [0, 1, 2, 3, 4] (7 / 10)) = [2, 3, 0] \<and>
   map (\<lambda>r. rectArea (storeNested r)) [0, 1, 2, 3, 4] = [100, 80, 300, 200, 4] \<and>
   list_all (\<lambda>a. list_all (\<lambda>b. \<not> evicts storeNested (7 / 10) a b) [0, 1, 2, 3, 4]) [0, 1, 2, 3, 4] \<and>
   filterElements (fst (filterElements storeNested [0, 1, 2, 3, 4] (7 / 10))) [3, 0, 2] (7 / 10) =
     (fst (filterElements storeNested [0, 1, 2, 3, 4] (7 / 10)), [2, 3, 0], [3, 0, 2])"
proof -
  define h1 where "h1 = fst (filterElements storeNested [0, 1, 2, 3, 4] (7 / 10))"
  have r: "snd (filterElements storeNested [0, 1, 2, 3, 4] (7 / 10)) = ([2, 3, 0, 1, 4], [3, 0, 2])"
    by (simp add: resolver_eval storeNested_def)
  then have e: "filterElements storeNested [0, 1, 2, 3, 4] (7 / 10) = (h1, [2, 3, 0, 1, 4], [3, 0, 2])"
    unfolding h1_def by (metis prod.collapse)
  have f: "snd (filterOverlappingElements storeNested [0, 1, 2, 3, 4] (7 / 10)) = [2, 3, 0]"
    by (simp add: resolver_eval storeNested_def)
  have areas: "map (\<lambda>r. rectArea (storeNested r)) [0, 1, 2, 3, 4] = [100, 80, 300, 200, 4]"
    by (simp add: storeNested_def rectArea_def element_def)
  then have ties: "\<forall>a \<in> set [0, 1, 2, 3, 4]. \<forall>b \<in> set [0, 1, 2, 3, 4].
       rectArea (storeNested a) = rectArea (storeNested b) \<and> weight (storeNested a) = weight (storeNested b)
         \<longrightarrow> a = b"
    by simp
  have ev: "list_all (\<lambda>a. list_all (\<lambda>b. \<not> evicts storeNested (7 / 10) a b) [0, 1, 2, 3, 4]) [0, 1, 2, 3, 4]"
    by (simp add: storeNested_def evicts_def overThreshold_def containedIn_def dominates_def
        atLeastHalf_def rectArea_def calculateIou_def isFullyContained_def element_def Let_def)
  then have ev': "\<forall>a \<in> set [0, 1, 2, 3, 4]. \<forall>b \<in> set [0, 1, 2, 3, 4]. \<not> evicts storeNested (7 / 10) a b"
    by (simp add: list_all_iff)
  from e ties ev'
    resolver_idempotent_without_ties_and_evictions
      [of storeNested "7 / 10" "[0, 1, 2, 3, 4]" h1 "[2, 3, 0, 1, 4]" "[3, 0, 2]"]
  have "filterElements h1 [3, 0, 2] (7 / 10) =
      (h1, snd (filterOverlappingElements storeNested [0, 1, 2, 3, 4] (7 / 10)), [3, 0, 2])"
    by blast
  with r f areas ev show ?thesis unfolding h1_def by simp
qed

end
